theory Spec2Isabelle
  imports Main "HOL-Library.Sublist"
begin

section \<open>Names: the marker pattern and \<open>cleanFilename\<close>\<close>

text \<open>
  Go strings are byte sequences; a \<^typ>\<open>string\<close> is the list of those bytes. The
  pattern of \<open>cleanFilename\<close> is the regular expression \<^verbatim>\<open> ?\(\d+\)\<close>: an optional
  single space, an opening parenthesis, one or more ASCII digits (Go's \<^verbatim>\<open>\d\<close> is
  \<^verbatim>\<open>[0-9]\<close>), a closing parenthesis. All bytes of the pattern are ASCII, so matching
  on bytes and matching on UTF-8 runes agree.
\<close>

definition isDigit :: "char \<Rightarrow> bool" where
  "isDigit c = (c \<in> set ''0123456789'')"

text \<open>\<^verbatim>\<open>\d+\)\<close> at the head of a string; the flag says that a digit has been read.
  The result is the text after the match.\<close>

fun digitsClose :: "bool \<Rightarrow> string \<Rightarrow> string option" where
  "digitsClose seen [] = None"
| "digitsClose seen (c # cs) =
     (if isDigit c then digitsClose True cs
      else if c = CHR '')'' \<and> seen then Some cs
      else None)"

text \<open>\<^verbatim>\<open>\(\d+\)\<close> at the head of a string.\<close>

fun matchParen :: "string \<Rightarrow> string option" where
  "matchParen [] = None"
| "matchParen (c # cs) = (if c = CHR ''('' then digitsClose False cs else None)"

text \<open>The whole pattern at the head of a string. The optional space is greedy: it is
  taken when present, and given back when the rest does not match.\<close>

fun matchMarker :: "string \<Rightarrow> string option" where
  "matchMarker [] = None"
| "matchMarker (c # cs) =
     (if c = CHR '' '' then
        (case matchParen cs of Some r \<Rightarrow> Some r | None \<Rightarrow> matchParen (c # cs))
      else matchParen (c # cs))"

lemma digitsClose_shorter: "digitsClose seen s = Some r \<Longrightarrow> length r < length s"
  by (induction s arbitrary: seen) (auto split: if_splits intro: less_SucI)

lemma matchParen_shorter:
  assumes "matchParen s = Some r"
  shows "length r < length s"
proof (cases s)
  case Nil
  with assms show ?thesis by simp
next
  case (Cons c cs)
  with assms have "digitsClose False cs = Some r"
    by (simp split: if_splits)
  then have "length r < length cs"
    by (rule digitsClose_shorter)
  with Cons show ?thesis by simp
qed

lemma matchMarker_shorter:
  assumes "matchMarker s = Some r"
  shows "length r < length s"
proof (cases s)
  case Nil
  with assms show ?thesis by simp
next
  case (Cons c cs)
  with assms have "matchParen cs = Some r \<or> matchParen (c # cs) = Some r"
    by (simp split: if_splits option.splits)
  then show ?thesis
  proof
    assume "matchParen cs = Some r"
    then have "length r < length cs" by (rule matchParen_shorter)
    with Cons show ?thesis by simp
  next
    assume "matchParen (c # cs) = Some r"
    then have "length r < length (c # cs)" by (rule matchParen_shorter)
    with Cons show ?thesis by simp
  qed
qed

text \<open>
  \<^verbatim>\<open>re.ReplaceAllString(filename, "")\<close>: the matches are found from left to right, each
  the leftmost one after the end of the previous match, and every match is removed. The
  scan is one pass over the input: text that the removals bring together is not
  scanned again.
\<close>

function cleanFilename :: "string \<Rightarrow> string" where
  "cleanFilename [] = []"
| "cleanFilename (c # cs) =
     (case matchMarker (c # cs) of
        Some rest \<Rightarrow> cleanFilename rest
      | None \<Rightarrow> c # cleanFilename cs)"
  by pat_completeness auto
termination
proof (relation "measure length")
  show "wf (measure length)" by simp
next
  fix c cs rest
  assume "matchMarker (c # cs) = Some rest"
  then have "length rest < length (c # cs)" by (rule matchMarker_shorter)
  then show "(rest, c # cs) \<in> measure length" by simp
next
  fix c :: char and cs
  show "(cs, c # cs) \<in> measure length" by simp
qed


text \<open>
  Two notions about names used in the properties below. A name is \<open>unnested\<close> when no
  opening parenthesis stands inside an open one: between two \<open>(\<close> there is a \<open>)\<close>.
  \<open>noMarker\<close> says that the pattern matches at no position of a name.
\<close>

fun flat :: "bool \<Rightarrow> string \<Rightarrow> bool" where
  "flat opened [] = True"
| "flat opened (c # cs) =
     (if c = CHR ''('' then \<not> opened \<and> flat True cs
      else if c = CHR '')'' then flat False cs
      else flat opened cs)"

definition unnested :: "string \<Rightarrow> bool" where
  "unnested s = flat False s"

text \<open>What \<^verbatim>\<open>filepath.Ext\<close> returns is empty or starts with a dot.\<close>

definition dotted :: "string \<Rightarrow> bool" where
  "dotted e = (e = [] \<or> hd e = CHR ''.'')"

fun noMarker :: "string \<Rightarrow> bool" where
  "noMarker [] = True"
| "noMarker (c # cs) = (matchMarker (c # cs) = None \<and> noMarker cs)"


section \<open>String helpers of the Go standard library\<close>

definition hasSuffix :: "string \<Rightarrow> string \<Rightarrow> bool" where
  \<comment> \<open>\<^verbatim>\<open>strings.HasSuffix\<close>\<close>
  "hasSuffix s suf = (length suf \<le> length s \<and> drop (length s - length suf) s = suf)"

definition trimSuffix :: "string \<Rightarrow> string \<Rightarrow> string" where
  \<comment> \<open>\<^verbatim>\<open>strings.TrimSuffix\<close>\<close>
  "trimSuffix s suf = (if hasSuffix s suf then take (length s - length suf) s else s)"

definition containsParen :: "string \<Rightarrow> bool" where
  \<comment> \<open>\<^verbatim>\<open>strings.Contains(s, "(")\<close>\<close>
  "containsParen s = (CHR ''('' \<in> set s)"

text \<open>\<^verbatim>\<open>filepath.Ext\<close>: the suffix that starts at the last dot of the last path element,
  empty when there is none. The scan runs from the end of the name.\<close>

fun extFrom :: "string \<Rightarrow> string \<Rightarrow> string" where
  "extFrom [] acc = []"
| "extFrom (c # cs) acc =
     (if c = CHR ''/'' then []
      else if c = CHR ''.'' then c # acc
      else extFrom cs (c # acc))"

definition Ext :: "string \<Rightarrow> string" where
  "Ext s = extFrom (rev s) []"

text \<open>
  \<^verbatim>\<open>strings.EqualFold\<close> compares two strings under the simple case folding of Unicode.
  Its tables are not part of the program, so the relation is a parameter, named
  \<open>EqualFold\<close>, of every definition that calls it: what is proved of such a definition
  is proved for every relation, that of Go among them. The one fact about folding
  that a property below needs is \<open>keepsParen\<close>: folding relates \<open>(\<close> to nothing but
  itself, so two names that are equal under folding both contain \<open>(\<close> or neither does.
  The runs on the example directories, whose names are ASCII, are computed with
  \<open>asciiFold\<close>, equality up to the case of the letters \<open>A\<close> to \<open>Z\<close>, which is what the
  folding of Unicode is on such names.
\<close>

type_synonym fold = "string \<Rightarrow> string \<Rightarrow> bool"

definition keepsParen :: "fold \<Rightarrow> bool" where
  "keepsParen EqualFold = (\<forall>s t. EqualFold s t \<longrightarrow> containsParen s = containsParen t)"

definition toLower :: "char \<Rightarrow> char" where
  "toLower c =
     (case map_of (zip ''ABCDEFGHIJKLMNOPQRSTUVWXYZ'' ''abcdefghijklmnopqrstuvwxyz'') c of
        Some l \<Rightarrow> l
      | None \<Rightarrow> c)"

definition asciiFold :: fold where
  "asciiFold s t = (map toLower s = map toLower t)"

text \<open>\<^verbatim>\<open>%d\<close> of a size or a counter.\<close>

fun showNat :: "nat \<Rightarrow> string" where
  "showNat n =
     (if n < 10 then [''0123456789'' ! n]
      else showNat (n div 10) @ [''0123456789'' ! (n mod 10)])"

declare showNat.simps [simp del]


section \<open>The filesystem\<close>

text \<open>
  A path is the list of its elements below the filesystem root \<open>/\<close>, which is the
  empty list. The filesystem is the list of its files and directories with what
  \<^verbatim>\<open>os.Stat\<close> reports of them; the list is in the order in which \<^verbatim>\<open>filepath.WalkDir\<close>
  visits it (a directory before its contents, the entries of a directory by name, as
  \<^verbatim>\<open>os.ReadDir\<close> sorts them). A handler is given the absolute path of the directory it
  walks.

  There are regular files and directories only, no symbolic links; an operation fails
  only for the reasons written out below, never for lack of permission or by an error
  of the device; and a directory keeps its size when an entry of it is removed.
\<close>

type_synonym path = "string list"

record info =
  IsDir :: bool
  Size :: nat

type_synonym fsys = "(path \<times> info) list"

datatype errno = ENOENT | ENOTEMPTY | EEXIST

definition Base :: "path \<Rightarrow> string" where
  \<comment> \<open>\<^verbatim>\<open>filepath.Base\<close>, and \<^verbatim>\<open>d.Name()\<close> of the entry at a path\<close>
  "Base p = (if p = [] then ''/'' else last p)"

definition Dir :: "path \<Rightarrow> path" where
  \<comment> \<open>\<^verbatim>\<open>filepath.Dir\<close>: the parent; the root is its own parent\<close>
  "Dir p = butlast p"

definition Join :: "path \<Rightarrow> string \<Rightarrow> path" where
  \<comment> \<open>\<^verbatim>\<open>filepath.Join(dir, name)\<close> for a name without separator: the result is cleaned,
      so an empty name and \<open>.\<close> give the directory and \<open>..\<close> its parent\<close>
  "Join d n =
     (if n = [] \<or> n = ''.'' then d
      else if n = ''..'' then Dir d
      else d @ [n])"

definition Stat :: "fsys \<Rightarrow> path \<Rightarrow> info option" where
  \<comment> \<open>\<^verbatim>\<open>os.Stat\<close>; \<open>None\<close> is the error\<close>
  "Stat fs p = map_of fs p"

definition ReadDir :: "fsys \<Rightarrow> path \<Rightarrow> (string \<times> info) list" where
  \<comment> \<open>\<^verbatim>\<open>os.ReadDir\<close>: name and kind of the entries of a directory\<close>
  "ReadDir fs d = map (\<lambda>r. (Base (fst r), snd r)) (filter (\<lambda>r. fst r \<noteq> [] \<and> Dir (fst r) = d) fs)"

definition Remove :: "fsys \<Rightarrow> path \<Rightarrow> errno + fsys" where
  \<comment> \<open>\<^verbatim>\<open>os.Remove\<close>: a file or an empty directory\<close>
  "Remove fs p =
     (case Stat fs p of
        None \<Rightarrow> Inl ENOENT
      | Some i \<Rightarrow>
          if IsDir i \<and> ReadDir fs p \<noteq> [] then Inl ENOTEMPTY
          else Inr (filter (\<lambda>r. fst r \<noteq> p) fs))"

definition Rename :: "fsys \<Rightarrow> path \<Rightarrow> path \<Rightarrow> errno + fsys" where
  \<comment> \<open>\<^verbatim>\<open>os.Rename\<close> of a file: an existing file at the destination is replaced, an
      existing directory there is refused\<close>
  "Rename fs src dst =
     (case Stat fs src of
        None \<Rightarrow> Inl ENOENT
      | Some i \<Rightarrow>
          if src = dst then Inr fs
          else if (case Stat fs dst of Some j \<Rightarrow> IsDir j | None \<Rightarrow> False) then Inl EEXIST
          else Inr (map (\<lambda>r. if fst r = src then (dst, snd r) else r)
                     (filter (\<lambda>r. fst r \<noteq> dst) fs)))"

text \<open>
  \<^verbatim>\<open>filepath.WalkDir\<close> lists a directory when it enters it and then calls the function
  on each entry listed, also on one removed in the meantime. The handlers remove only
  entries of a directory that is already listed, and rename only after the walk, so the
  entries visited are those of the filesystem of the start, each with what the listing
  said of it.
\<close>

definition WalkDir :: "fsys \<Rightarrow> path \<Rightarrow> (path \<times> info) list" where
  \<comment> \<open>the entries \<^verbatim>\<open>filepath.WalkDir(dir, fn)\<close> passes to \<open>fn\<close>: \<open>dir\<close> and all below it\<close>
  "WalkDir fs dir = filter (\<lambda>r. prefix dir (fst r)) fs"


section \<open>Output\<close>

text \<open>
  The output is the list of the lines printed, each without its newline and marked with
  the stream it goes to. A format that starts with a newline gives an empty line first.
  Paths are printed as \<^verbatim>\<open>filepath.Rel\<close> and \<^verbatim>\<open>filepath.Join\<close> make them from an absolute
  root.
\<close>

datatype line = Stdout string | Stderr string

fun joinSlash :: "string list \<Rightarrow> string" where
  "joinSlash [] = []"
| "joinSlash [n] = n"
| "joinSlash (n # m # ns) = n @ ''/'' @ joinSlash (m # ns)"

definition pathStr :: "path \<Rightarrow> string" where
  "pathStr p = CHR ''/'' # joinSlash p"

fun relParts :: "path \<Rightarrow> path \<Rightarrow> string list" where
  "relParts [] ts = ts"
| "relParts (b # bs) [] = replicate (length (b # bs)) ''..''"
| "relParts (b # bs) (t # ts) =
     (if b = t then relParts bs ts else replicate (length (b # bs)) ''..'' @ (t # ts))"

definition Rel :: "path \<Rightarrow> path \<Rightarrow> string" where
  \<comment> \<open>\<^verbatim>\<open>filepath.Rel(base, target)\<close>\<close>
  "Rel base targ = (let r = relParts base targ in if r = [] then ''.'' else joinSlash r)"

definition errnoText :: "errno \<Rightarrow> string" where
  "errnoText e =
     (case e of
        ENOENT \<Rightarrow> ''no such file or directory''
      | ENOTEMPTY \<Rightarrow> ''directory not empty''
      | EEXIST \<Rightarrow> ''file exists'')"


section \<open>The state of a run\<close>

text \<open>
  A handler reads and changes the filesystem, prints, and counts. \<open>disk\<close> is the
  filesystem as it is at that moment, \<open>out\<close> the lines printed so far, \<open>foundChanges\<close>,
  \<open>skipped\<close> and \<open>xmpFiles\<close> the handler's variables of these names. \<open>calls\<close> is not a
  variable of the program: it records every call of \<^verbatim>\<open>os.Remove\<close> and \<^verbatim>\<open>os.Rename\<close>
  with its arguments, whether or not the call succeeds.
\<close>

datatype fscall = CallRemove path | CallRename path path

record run =
  disk :: fsys
  out :: "line list"
  calls :: "fscall list"
  foundChanges :: nat
  skipped :: nat
  xmpFiles :: "(path \<times> path) list"

definition start :: "fsys \<Rightarrow> run" where
  "start fs = \<lparr>disk = fs, out = [], calls = [], foundChanges = 0, skipped = 0, xmpFiles = []\<rparr>"

definition print :: "string \<Rightarrow> run \<Rightarrow> run" where
  "print l st = st\<lparr>out := out st @ [Stdout l]\<rparr>"

definition printErr :: "string \<Rightarrow> run \<Rightarrow> run" where
  "printErr l st = st\<lparr>out := out st @ [Stderr l]\<rparr>"


section \<open>\<open>handleDuplicates\<close>\<close>

text \<open>
  The callback of \<open>handleDuplicates\<close> has two parts. The first (from its first line to
  the comparison of the sizes) decides whether the entry is a duplicate of the file
  named by its cleaned name; it only reads. The second (the body of that
  \<^verbatim>\<open>if\<close>) counts, prints and, with \<open>apply\<close>, removes the entry.
\<close>

datatype dupDecision = NoDecision | DuplicatePair path nat

definition originalPath :: "path \<Rightarrow> path" where
  \<comment> \<open>\<^verbatim>\<open>filepath.Join(filepath.Dir(path), cleanFilename(baseName))\<close>\<close>
  "originalPath path = Join (Dir path) (cleanFilename (Base path))"

definition dupDecide :: "fsys \<Rightarrow> path \<times> info \<Rightarrow> dupDecision" where
  "dupDecide fs row =
     (let path = fst row; d = snd row in
      if IsDir d then NoDecision
      else
        let baseName = Base path in
        if hasSuffix baseName ''.xmp'' then NoDecision
        else if \<not> containsParen baseName then NoDecision
        else
          let originalName = cleanFilename baseName in
          if originalName = baseName then NoDecision
          else if Stat fs (originalPath path) = None then NoDecision
          else
            (case (Stat fs path, Stat fs (originalPath path)) of
               (Some info1, Some info2) \<Rightarrow>
                 if Size info1 = Size info2 then DuplicatePair (originalPath path) (Size info1)
                 else NoDecision
             | _ \<Rightarrow> NoDecision))"

definition removeOrReport :: "path \<Rightarrow> (run \<Rightarrow> run) \<Rightarrow> run \<Rightarrow> run" where
  \<comment> \<open>\<^verbatim>\<open>if err := os.Remove(p); err != nil { report } else { ok }\<close>\<close>
  "removeOrReport p ok st =
     (case Remove (disk st) p of
        Inl e \<Rightarrow>
          printErr (''Error removing '' @ pathStr p @ '': remove '' @ pathStr p @ '': '' @ errnoText e)
            (st\<lparr>calls := calls st @ [CallRemove p]\<rparr>)
      | Inr fs' \<Rightarrow> ok (st\<lparr>disk := fs', calls := calls st @ [CallRemove p]\<rparr>))"

definition dupAct :: "bool \<Rightarrow> path \<Rightarrow> run \<Rightarrow> path \<Rightarrow> dupDecision \<Rightarrow> run" where
  "dupAct apply dir st path dec =
     (case dec of
        NoDecision \<Rightarrow> st
      | DuplicatePair original sz \<Rightarrow>
          let st1 = print (Rel dir original @ '' <-> '' @ Rel dir path
                           @ '' (Size: '' @ showNat sz @ '' bytes)'')
                      (st\<lparr>foundChanges := foundChanges st + 1\<rparr>)
          in if apply then removeOrReport path (print (''  Removed: '' @ pathStr path)) st1
             else st1)"

definition dupVisit :: "bool \<Rightarrow> path \<Rightarrow> run \<Rightarrow> path \<times> info \<Rightarrow> run" where
  "dupVisit apply dir st row = dupAct apply dir st (fst row) (dupDecide (disk st) row)"

definition dupSummary :: "bool \<Rightarrow> run \<Rightarrow> run" where
  "dupSummary apply st =
     (if foundChanges st = 0 then print ''No duplicate files found.'' st
      else
        let st1 = print (''Found '' @ showNat (foundChanges st) @ '' duplicate pair(s).'')
                    (print [] st)
        in if apply then print ''Removed all duplicates.'' st1 else st1)"

definition handleDuplicates :: "path \<Rightarrow> bool \<Rightarrow> fsys \<Rightarrow> run" where
  "handleDuplicates dir apply fs =
     dupSummary apply (foldl (dupVisit apply dir) (start fs) (WalkDir fs dir))"

text \<open>The decisions of a run, one for each entry in the order of the visits, each
  taken on the filesystem as the visits before it have left it.\<close>

fun dupDecisions :: "bool \<Rightarrow> path \<Rightarrow> run \<Rightarrow> (path \<times> info) list \<Rightarrow> dupDecision list" where
  "dupDecisions apply dir st [] = []"
| "dupDecisions apply dir st (row # rows) =
     dupDecide (disk st) row # dupDecisions apply dir (dupVisit apply dir st row) rows"


section \<open>\<open>handleXMPRenaming\<close>\<close>

text \<open>
  The callback again first decides and then acts. The decision follows the code branch by
  branch:
  \<^item> \<open>NotSidecar\<close>: a directory, or a name without the suffix \<open>.xmp\<close>;
  \<^item> \<open>AlreadyCorrect\<close>: \<^verbatim>\<open>os.Stat(exactImagePath)\<close> succeeds;
  \<^item> \<open>Ambiguous\<close>: \<open>cleanImageExists\<close> and \<open>numberedImageExists\<close>;
  \<^item> \<open>Orphaned\<close>: no image found, or the second \<^verbatim>\<open>os.Stat(exactImagePath)\<close> fails (both
    branches count, print the same line and remove the sidecar);
  \<^item> \<open>NamedCorrectly\<close>: the sidecar already has the name \<open>correctXMPPath\<close>;
  \<^item> \<open>CaseConflict\<close>: the directory has that name in another case (skipped silently);
  \<^item> \<open>DestOrphaned\<close>: it has that name, and the image found does not exist;
  \<^item> \<open>DestExists\<close>: it has that name, and the image exists (\<^verbatim>\<open>[SKIP]\<close>);
  \<^item> \<open>NeedsRename\<close>: the rename is printed and recorded in \<open>xmpFiles\<close>.
\<close>

datatype xmpDecision =
    NotSidecar
  | AlreadyCorrect
  | Ambiguous
  | Orphaned
  | NamedCorrectly
  | CaseConflict
  | DestOrphaned path
  | DestExists path
  | NeedsRename path

text \<open>The names the callback computes from the path of a sidecar.\<close>

definition imageBase :: "path \<Rightarrow> string" where
  "imageBase path = trimSuffix (Base path) ''.xmp''"

definition imageExt :: "path \<Rightarrow> string" where
  "imageExt path = Ext (imageBase path)"

definition cleanBaseOnly :: "path \<Rightarrow> string" where
  "cleanBaseOnly path =
     (let cleanBase = cleanFilename (imageBase path) in trimSuffix cleanBase (Ext cleanBase))"

definition exactImagePath :: "path \<Rightarrow> path" where
  "exactImagePath path = Join (Dir path) (imageBase path)"

text \<open>The test of the three loops over the directory: a file, no sidecar, whose
  extension and cleaned stem are those of the sidecar's image under \<open>EqualFold\<close>.\<close>

definition candidate :: "fold \<Rightarrow> path \<Rightarrow> string \<times> info \<Rightarrow> bool" where
  "candidate EqualFold path entry =
     (\<not> (IsDir (snd entry) \<or> hasSuffix (fst entry) ''.xmp'')
      \<and> EqualFold (Ext (fst entry)) (imageExt path)
      \<and> EqualFold (cleanFilename (trimSuffix (fst entry) (Ext (fst entry)))) (cleanBaseOnly path))"

definition numberedImage :: "fold \<Rightarrow> path \<Rightarrow> string \<times> info \<Rightarrow> bool" where
  "numberedImage EqualFold path entry = (candidate EqualFold path entry \<and> containsParen (fst entry))"

definition cleanImage :: "fold \<Rightarrow> path \<Rightarrow> string \<times> info \<Rightarrow> bool" where
  "cleanImage EqualFold path entry = (candidate EqualFold path entry \<and> \<not> containsParen (fst entry))"

definition numberedImageExists :: "fold \<Rightarrow> fsys \<Rightarrow> path \<Rightarrow> bool" where
  \<comment> \<open>the flag after the first loop\<close>
  "numberedImageExists EqualFold fs path = list_ex (numberedImage EqualFold path) (ReadDir fs (Dir path))"

definition cleanImageExists :: "fold \<Rightarrow> fsys \<Rightarrow> path \<Rightarrow> bool" where
  "cleanImageExists EqualFold fs path = list_ex (cleanImage EqualFold path) (ReadDir fs (Dir path))"

definition findImage :: "fold \<Rightarrow> fsys \<Rightarrow> path \<Rightarrow> path option" where
  \<comment> \<open>the second and third loop: the first numbered image, else the first clean one\<close>
  "findImage EqualFold fs path =
     (case find (numberedImage EqualFold path) (ReadDir fs (Dir path)) of
        Some e \<Rightarrow> Some (Join (Dir path) (fst e))
      | None \<Rightarrow>
          (case find (cleanImage EqualFold path) (ReadDir fs (Dir path)) of
             Some e \<Rightarrow> Some (Join (Dir path) (fst e))
           | None \<Rightarrow> None))"

definition xmpDecide :: "fold \<Rightarrow> fsys \<Rightarrow> path \<times> info \<Rightarrow> xmpDecision" where
  "xmpDecide EqualFold fs row =
     (let path = fst row; d = snd row in
      if IsDir d then NotSidecar
      else if \<not> hasSuffix (Base path) ''.xmp'' then NotSidecar
      else if Stat fs (exactImagePath path) \<noteq> None then AlreadyCorrect
      else if cleanImageExists EqualFold fs path \<and> numberedImageExists EqualFold fs path then Ambiguous
      else
        (case findImage EqualFold fs path of
           None \<Rightarrow> Orphaned
         | Some foundImage \<Rightarrow>
             let correctXMPName = Base foundImage @ ''.xmp'';
                 correctXMPPath = Join (Dir path) correctXMPName
             in
             if Stat fs (exactImagePath path) = None then Orphaned
             else if path \<noteq> correctXMPPath then
               let existingFile =
                     (case find (\<lambda>e. EqualFold (fst e) correctXMPName) (ReadDir fs (Dir path)) of
                        Some e \<Rightarrow> fst e
                      | None \<Rightarrow> [])
               in
               if existingFile \<noteq> [] then
                 if existingFile \<noteq> correctXMPName then CaseConflict
                 else if Stat fs foundImage = None then DestOrphaned correctXMPPath
                 else DestExists correctXMPPath
               else NeedsRename correctXMPPath
             else NamedCorrectly))"

fun setKey :: "(path \<times> path) list \<Rightarrow> path \<Rightarrow> path \<Rightarrow> (path \<times> path) list" where
  \<comment> \<open>\<^verbatim>\<open>xmpFiles[src] = dst\<close>\<close>
  "setKey [] src dst = [(src, dst)]"
| "setKey (kv # m) src dst = (if fst kv = src then (src, dst) # m else kv # setKey m src dst)"

definition orphanLine :: "path \<Rightarrow> path \<Rightarrow> string" where
  "orphanLine dir path = ''[REMOVE] '' @ Rel dir path @ '' (orphaned XMP, no base file exists)''"

definition xmpAct :: "bool \<Rightarrow> path \<Rightarrow> run \<Rightarrow> path \<Rightarrow> xmpDecision \<Rightarrow> run" where
  "xmpAct apply dir st path dec =
     (case dec of
        NotSidecar \<Rightarrow> st
      | AlreadyCorrect \<Rightarrow> st
      | Ambiguous \<Rightarrow> st
      | Orphaned \<Rightarrow>
          let st1 = print (orphanLine dir path) (st\<lparr>foundChanges := foundChanges st + 1\<rparr>)
          in if apply then removeOrReport path (\<lambda>s. s) st1 else st1
      | NamedCorrectly \<Rightarrow> st
      | CaseConflict \<Rightarrow> st
      | DestOrphaned correctXMPPath \<Rightarrow>
          let l = ''[REMOVE] '' @ Rel dir correctXMPPath @ '' (orphaned XMP, base doesn't exist)''
          in if apply then removeOrReport correctXMPPath (print l) st
             else print l (st\<lparr>foundChanges := foundChanges st + 1\<rparr>)
      | DestExists correctXMPPath \<Rightarrow>
          print (''[SKIP] '' @ Rel dir path @ '' (destination already exists: ''
                 @ Rel dir correctXMPPath @ '')'')
            (st\<lparr>skipped := skipped st + 1\<rparr>)
      | NeedsRename correctXMPPath \<Rightarrow>
          (print (Rel dir path @ '' -> '' @ Rel dir correctXMPPath)
             (st\<lparr>foundChanges := foundChanges st + 1\<rparr>))
            \<lparr>xmpFiles := setKey (xmpFiles st) path correctXMPPath\<rparr>)"

definition xmpVisit :: "fold \<Rightarrow> bool \<Rightarrow> path \<Rightarrow> run \<Rightarrow> path \<times> info \<Rightarrow> run" where
  "xmpVisit EqualFold apply dir st row = xmpAct apply dir st (fst row) (xmpDecide EqualFold (disk st) row)"

text \<open>The loop over \<open>xmpFiles\<close> after the walk. Go ranges over a map in no fixed order;
  here the order is that of the list.\<close>

definition renameStep :: "run \<Rightarrow> path \<times> path \<Rightarrow> run" where
  "renameStep st kv =
     (let src = fst kv; dst = snd kv in
      case Rename (disk st) src dst of
        Inl e \<Rightarrow>
          printErr (''Error renaming '' @ pathStr src @ '': rename '' @ pathStr src @ '' ''
                    @ pathStr dst @ '': '' @ errnoText e)
            (st\<lparr>calls := calls st @ [CallRename src dst]\<rparr>)
      | Inr fs' \<Rightarrow>
          print (''  Renamed: '' @ pathStr src @ '' to '' @ pathStr dst)
            (st\<lparr>disk := fs', calls := calls st @ [CallRename src dst]\<rparr>))"

definition xmpSummary :: "bool \<Rightarrow> run \<Rightarrow> run" where
  "xmpSummary apply st =
     (if foundChanges st = 0 \<and> skipped st = 0 then print ''No XMP files need renaming.'' st
      else
        let st1 =
              (if foundChanges st > 0 then
                 let s1 = print (''Found '' @ showNat (foundChanges st) @ '' XMP file(s) to rename.'')
                            (print [] st)
                 in if apply then print ''Renamed all XMP files to match their image files.'' s1
                    else s1
               else st)
        in if skipped st > 0 then
             print (''Skipped '' @ showNat (skipped st) @ '' XMP file(s) (destination already exists).'') st1
           else st1)"

definition xmpWalk :: "fold \<Rightarrow> path \<Rightarrow> bool \<Rightarrow> fsys \<Rightarrow> run" where
  "xmpWalk EqualFold dir apply fs = foldl (xmpVisit EqualFold apply dir) (start fs) (WalkDir fs dir)"

definition handleXMPRenaming :: "fold \<Rightarrow> path \<Rightarrow> bool \<Rightarrow> fsys \<Rightarrow> run" where
  "handleXMPRenaming EqualFold dir apply fs =
     (let st = xmpWalk EqualFold dir apply fs;
          st1 = (if apply then foldl renameStep st (xmpFiles st) else st)
      in xmpSummary apply st1)"

fun xmpDecisions :: "fold \<Rightarrow> bool \<Rightarrow> path \<Rightarrow> run \<Rightarrow> (path \<times> info) list \<Rightarrow> xmpDecision list" where
  "xmpDecisions EqualFold apply dir st [] = []"
| "xmpDecisions EqualFold apply dir st (row # rows) =
     xmpDecide EqualFold (disk st) row # xmpDecisions EqualFold apply dir (xmpVisit EqualFold apply dir st row) rows"


section \<open>Notions used in the properties\<close>

text \<open>The paths a call names.\<close>

fun touched :: "fscall \<Rightarrow> path list" where
  "touched (CallRemove p) = [p]"
| "touched (CallRename src dst) = [src, dst]"

text \<open>
  The entries a handler can remove: for \<open>handleDuplicates\<close> a file that is no sidecar
  and whose name \<open>cleanFilename\<close> changes, for \<open>handleXMPRenaming\<close> a file with the
  sidecar suffix.
\<close>

definition dupDeletable :: "path \<times> info \<Rightarrow> bool" where
  "dupDeletable row =
     (\<not> IsDir (snd row) \<and> \<not> hasSuffix (Base (fst row)) ''.xmp''
      \<and> cleanFilename (Base (fst row)) \<noteq> Base (fst row))"

definition xmpDeletable :: "path \<times> info \<Rightarrow> bool" where
  "xmpDeletable row = (\<not> IsDir (snd row) \<and> hasSuffix (Base (fst row)) ''.xmp'')"

text \<open>
  A walk is independent when no entry is decided by looking at a file that the same
  handler can remove: no marked file has a marked file as its original (and no marked
  file is listed twice), no sidecar has a sidecar as its image.
\<close>

definition dupIndependent :: "fsys \<Rightarrow> path \<Rightarrow> bool" where
  "dupIndependent fs dir =
     (let rows = filter dupDeletable (WalkDir fs dir) in
      distinct (map fst rows)
      \<and> list_all (\<lambda>r. list_all (\<lambda>q. originalPath (fst r) \<noteq> fst q) rows) rows)"

definition xmpIndependent :: "fsys \<Rightarrow> path \<Rightarrow> bool" where
  "xmpIndependent fs dir =
     (let rows = filter xmpDeletable (WalkDir fs dir) in
      list_all (\<lambda>r. list_all (\<lambda>q. exactImagePath (fst r) \<noteq> fst q) rows) rows)"


section \<open>Example directories\<close>

definition regular :: "nat \<Rightarrow> info" where
  "regular n = \<lparr>IsDir = False, Size = n\<rparr>"

definition folder :: info where
  "folder = \<lparr>IsDir = True, Size = 4096\<rparr>"

definition photos :: fsys where
  "photos =
     [([], folder), ([''d''], folder),
      ([''d'', ''photo (1).jpg''], regular 500), ([''d'', ''photo.jpg''], regular 500)]"

definition samesize :: fsys where
  "samesize =
     [([], folder), ([''d''], folder),
      ([''d'', ''x''], folder), ([''d'', ''x (1)''], regular 4096),
      ([''d'', ''y''], regular 4096), ([''d'', ''y (1)''], folder)]"

definition bound :: fsys where
  "bound =
     [([], folder), ([''d''], folder),
      ([''d'', ''a (2).mp4''], regular 9), ([''d'', ''a (2).mp4.xmp''], regular 3)]"

definition both :: fsys where
  "both =
     [([], folder), ([''d''], folder),
      ([''d'', ''a (1).mp4''], regular 9), ([''d'', ''a (3).mp4.xmp''], regular 3),
      ([''d'', ''a.mp4''], regular 9)]"

definition parens :: fsys where
  "parens =
     [([], folder), ([''d''], folder),
      ([''d'', ''a(b) (1).jpg.xmp''], regular 3), ([''d'', ''a(b) (2).jpg''], regular 9),
      ([''d'', ''a(b).jpg''], regular 9)]"

definition lone :: fsys where
  "lone =
     [([], folder), ([''d''], folder),
      ([''d'', ''a.jpg''], regular 9), ([''d'', ''b.png.xmp''], regular 3)]"

definition renumbered :: fsys where
  "renumbered =
     [([], folder), ([''d''], folder),
      ([''d'', ''c (1).png''], regular 7), ([''d'', ''c.png.xmp''], regular 3)]"

definition chain :: fsys where
  "chain =
     [([], folder), ([''d''], folder),
      ([''d'', ''a.xmp''], regular 3), ([''d'', ''a.xmp.xmp''], regular 3)]"

definition nested :: fsys where
  "nested =
     [([], folder), ([''d''], folder),
      ([''d'', ''x''], regular 5), ([''d'', ''x (3)''], regular 5),
      ([''d'', ''x(1) ((2)3)''], regular 5)]"

definition mixed :: fsys where
  "mixed =
     [([], folder), ([''d''], folder),
      ([''d'', ''img (1).jpg''], regular 500), ([''d'', ''img.jpg''], regular 500),
      ([''d'', ''img.jpg.xmp''], regular 3), ([''d'', ''orphan.xmp''], regular 3)]"

text \<open>A directory with names outside ASCII: the bytes \<open>C3 89\<close> are the letter E with an
  acute accent in UTF-8 and \<open>C3 A9\<close> the small letter. The directory holds the image
  under the capital letter, bare and with the marker \<open>(1)\<close>, and a sidecar with the
  marker \<open>(2)\<close> under the small letter.\<close>

definition accented :: fsys where
  "accented =
     [([], folder), ([''d''], folder),
      ([''d'', [CHR 0xC3, CHR 0x89] @ '' (1).jpg''], regular 9),
      ([''d'', [CHR 0xC3, CHR 0x89] @ ''.jpg''], regular 9),
      ([''d'', [CHR 0xC3, CHR 0xA9] @ '' (2).jpg.xmp''], regular 3)]"


section \<open>Properties of \<open>cleanFilename\<close>\<close>

lemma isDigit_not_special:
  "isDigit c \<Longrightarrow> c \<noteq> CHR ''('' \<and> c \<noteq> CHR '')'' \<and> c \<noteq> CHR '' ''"
  by (auto simp: isDigit_def)

lemma cleanFilename_noMarker: "noMarker y \<Longrightarrow> cleanFilename y = y"
  by (induction y) auto

lemma noMarker_matchParen: "noMarker y \<Longrightarrow> matchParen y = None"
  by (cases y) (auto split: if_splits option.splits)

lemma digitsClose_flat: "digitsClose seen s = Some r \<Longrightarrow> flat b s \<Longrightarrow> flat False r"
  by (induction s arbitrary: seen b) (auto split: if_splits dest: isDigit_not_special)

lemma matchParen_flat: "matchParen s = Some r \<Longrightarrow> flat b s \<Longrightarrow> flat False r"
proof (cases s)
  case Nil
  assume "matchParen s = Some r"
  with Nil show ?thesis by simp
next
  case (Cons c cs)
  assume m: "matchParen s = Some r" and f: "flat b s"
  from m Cons have "digitsClose False cs = Some r" by (simp split: if_splits)
  moreover from m f Cons have "flat True cs" by (simp split: if_splits)
  ultimately show ?thesis by (rule digitsClose_flat)
qed

lemma matchMarker_flat: "matchMarker s = Some r \<Longrightarrow> flat b s \<Longrightarrow> flat False r"
proof (cases s)
  case Nil
  assume "matchMarker s = Some r"
  with Nil show ?thesis by simp
next
  case (Cons c cs)
  assume m: "matchMarker s = Some r" and f: "flat b s"
  from m Cons consider "c = CHR '' ''" "matchParen cs = Some r" | "matchParen (c # cs) = Some r"
    by (auto split: if_splits option.splits)
  then show ?thesis
  proof cases
    case 1
    with f Cons have "flat b cs" by simp
    with 1 show ?thesis by (blast intro: matchParen_flat)
  next
    case 2
    with f Cons show ?thesis by (blast intro: matchParen_flat)
  qed
qed

lemma flat_True_matchParen: "flat True s \<Longrightarrow> matchParen s = None"
  by (cases s) auto

lemma flat_tail: "flat b (c # cs) \<Longrightarrow> \<exists>b'. flat b' cs"
  by (auto split: if_splits)

text \<open>Inside an open parenthesis of an unnested name nothing is removed before the
  next \<open>)\<close>, so the digits after the \<open>(\<close> and what ends them are the same before and
  after cleaning.\<close>

lemma digitsClose_clean:
  "flat True cs \<Longrightarrow> (digitsClose seen (cleanFilename cs) = None) = (digitsClose seen cs = None)"
proof (induction cs arbitrary: seen)
  case Nil
  then show ?case by simp
next
  case (Cons c cs)
  from Cons.prems have c: "c \<noteq> CHR ''(''" by (auto split: if_splits)
  show ?case
  proof (cases "isDigit c")
    case True
    with Cons.prems have f: "flat True cs"
      by (auto dest: isDigit_not_special split: if_splits)
    from True have "matchMarker (c # cs) = None"
      by (auto dest: isDigit_not_special)
    with True Cons.IH [OF f] show ?thesis by simp
  next
    case False
    show ?thesis
    proof (cases "c = CHR '' ''")
      case True
      with Cons.prems have "flat True cs" by simp
      then have "matchParen cs = None" by (rule flat_True_matchParen)
      with True have "matchMarker (c # cs) = None" by simp
      with True False show ?thesis by simp
    next
      case sp: False
      with c have "matchMarker (c # cs) = None" by simp
      with False show ?thesis by simp
    qed
  qed
qed

lemma noMarker_cleanFilename: "flat b x \<Longrightarrow> noMarker (cleanFilename x)"
proof (induction x arbitrary: b rule: cleanFilename.induct)
  case 1
  then show ?case by simp
next
  case (2 c cs)
  show ?case
  proof (cases "matchMarker (c # cs)")
    case (Some rest)
    with "2.prems" have "flat False rest" by (blast dest: matchMarker_flat)
    then have "noMarker (cleanFilename rest)" by (rule "2.IH"(2) [OF Some])
    with Some show ?thesis by (simp del: matchMarker.simps)
  next
    case None
    from "2.prems" obtain b' where b': "flat b' cs" by (blast dest: flat_tail)
    have nm: "noMarker (cleanFilename cs)" by (rule "2.IH"(1) [OF None b'])
    have "matchMarker (c # cleanFilename cs) = None"
    proof (cases "c = CHR ''(''")
      case True
      with "2.prems" have "flat True cs" by simp
      moreover from True None have "digitsClose False cs = None" by simp
      ultimately have "digitsClose False (cleanFilename cs) = None"
        by (simp add: digitsClose_clean)
      with True show ?thesis by simp
    next
      case False
      with nm show ?thesis by (simp add: noMarker_matchParen)
    qed
    with None nm show ?thesis by (simp del: matchMarker.simps)
  qed
qed

lemma cleanFilename_unnested:
  "unnested x \<Longrightarrow> cleanFilename (cleanFilename x) = cleanFilename x"
  unfolding unnested_def by (blast intro: cleanFilename_noMarker noMarker_cleanFilename)

text \<open>A name without \<open>(\<close> is left as it is.\<close>

lemma cleanFilename_no_paren: "\<not> containsParen x \<Longrightarrow> cleanFilename x = x"
proof (induction x)
  case Nil
  then show ?case by simp
next
  case (Cons c cs)
  then have c: "c \<noteq> CHR ''(''" and cs: "\<not> containsParen cs"
    by (auto simp: containsParen_def)
  from cs have "matchParen cs = None"
    by (cases cs) (auto simp: containsParen_def)
  with c have "matchMarker (c # cs) = None" by simp
  with Cons.IH [OF cs] show ?case by (simp del: matchMarker.simps)
qed


section \<open>Parentheses and markers in the name of a candidate\<close>

lemma toLower_paren: "(toLower c = CHR ''('') = (c = CHR ''('')" "(CHR ''('' = toLower c) = (c = CHR ''('')"
  by (auto simp: toLower_def split: option.splits if_splits)

lemma toLower_set_paren: "(CHR ''('' \<in> set (map toLower u)) = (CHR ''('' \<in> set u)"
  by (induction u) (auto simp: toLower_paren)

lemma asciiFold_paren: "asciiFold s t \<Longrightarrow> containsParen s = containsParen t"
proof -
  assume "asciiFold s t"
  then have "map toLower s = map toLower t" by (simp add: asciiFold_def)
  with toLower_set_paren [of s] toLower_set_paren [of t] show ?thesis
    unfolding containsParen_def by metis
qed

lemma keepsParen_asciiFold: "keepsParen asciiFold"
  unfolding keepsParen_def using asciiFold_paren by blast

lemma extFrom_split:
  "\<exists>pre. rev r @ acc = pre @ extFrom r acc \<and> (extFrom r acc = [] \<or> hd (extFrom r acc) = CHR ''.'')"
proof (induction r arbitrary: acc)
  case Nil
  then show ?case by simp
next
  case (Cons c r)
  show ?case
  proof (cases "c = CHR ''/''")
    case True
    then show ?thesis by simp
  next
    case False
    show ?thesis
    proof (cases "c = CHR ''.''")
      case True
      with False have "rev (c # r) @ acc = rev r @ extFrom (c # r) acc" by simp
      with True False show ?thesis by auto
    next
      case nd: False
      from Cons.IH [of "c # acc"] False nd show ?thesis by simp
    qed
  qed
qed

lemma Ext_split: "name = trimSuffix name (Ext name) @ Ext name" and Ext_dotted: "dotted (Ext name)"
proof -
  from extFrom_split [of "rev name" "[]"] obtain pre
    where pre: "name = pre @ Ext name" and d: "Ext name = [] \<or> hd (Ext name) = CHR ''.''"
    by (auto simp: Ext_def)
  from d show "dotted (Ext name)" by (simp add: dotted_def)
  from pre have "hasSuffix name (Ext name)"
    by (metis append_eq_conv_conj hasSuffix_def le_add2 length_append add_diff_cancel_right')
  moreover from pre have "take (length name - length (Ext name)) name = pre"
    by (metis append_eq_conv_conj length_append add_diff_cancel_right')
  ultimately show "name = trimSuffix name (Ext name) @ Ext name"
    using pre by (simp add: trimSuffix_def)
qed

lemma digitsClose_append:
  "dotted e \<Longrightarrow> digitsClose seen (s @ e) = map_option (\<lambda>r. r @ e) (digitsClose seen s)"
proof (induction s arbitrary: seen)
  case Nil
  then show ?case by (cases e) (auto simp: dotted_def isDigit_def)
next
  case (Cons c s)
  then show ?case by simp
qed

lemma matchParen_append:
  assumes "dotted e"
  shows "matchParen (s @ e) = map_option (\<lambda>r. r @ e) (matchParen s)"
proof (cases s)
  case Nil
  with assms show ?thesis by (cases e) (auto simp: dotted_def)
next
  case (Cons c cs)
  with digitsClose_append [OF assms, of False cs] show ?thesis by simp
qed

lemma matchMarker_append:
  assumes "dotted e"
  shows "matchMarker (c # cs @ e) = map_option (\<lambda>r. r @ e) (matchMarker (c # cs))"
proof -
  from matchParen_append [OF assms, of "c # cs"]
  have 1: "matchParen (c # cs @ e) = map_option (\<lambda>r. r @ e) (matchParen (c # cs))" by simp
  note 2 = matchParen_append [OF assms, of cs]
  show ?thesis
  proof (cases "c = CHR '' ''")
    case True
    then have "matchParen (c # cs @ e) = None" and "matchParen (c # cs) = None" by simp_all
    with True 2 show ?thesis by (cases "matchParen cs") simp_all
  next
    case False
    with 1 show ?thesis by simp
  qed
qed

lemma cleanFilename_append:
  "dotted e \<Longrightarrow> \<not> containsParen e \<Longrightarrow> cleanFilename (s @ e) = cleanFilename s @ e"
proof (induction s rule: cleanFilename.induct)
  case 1
  then show ?case by (simp add: cleanFilename_no_paren)
next
  case (2 c cs)
  show ?case
  proof (cases "matchMarker (c # cs)")
    case None
    with "2.prems" have "matchMarker (c # cs @ e) = None"
      by (simp add: matchMarker_append del: matchMarker.simps)
    with None "2.IH"(1) "2.prems" show ?thesis
      by (simp del: matchMarker.simps)
  next
    case (Some rest)
    with "2.prems" have "matchMarker (c # cs @ e) = Some (rest @ e)"
      by (simp add: matchMarker_append del: matchMarker.simps)
    with Some "2.IH"(2) "2.prems" show ?thesis
      by (simp del: matchMarker.simps)
  qed
qed

lemma candidate_marked:
  assumes "candidate EqualFold p e" and "\<not> containsParen (cleanBaseOnly p)" and "\<not> containsParen (imageExt p)"
    and "keepsParen EqualFold"
  shows "containsParen (fst e) = (cleanFilename (fst e) \<noteq> fst e)"
proof -
  define stem where "stem = trimSuffix (fst e) (Ext (fst e))"
  define ext where "ext = Ext (fst e)"
  have n: "fst e = stem @ ext" unfolding stem_def ext_def by (rule Ext_split)
  have d: "dotted ext" unfolding ext_def by (rule Ext_dotted)
  from assms(4) have EqualFold_paren: "\<And>s t. EqualFold s t \<Longrightarrow> containsParen s = containsParen t"
    unfolding keepsParen_def by blast
  from assms(1,3) have e: "\<not> containsParen ext"
    by (auto simp: candidate_def ext_def dest: EqualFold_paren)
  from assms(1,2) have c: "\<not> containsParen (cleanFilename stem)"
    by (auto simp: candidate_def stem_def dest: EqualFold_paren)
  have "containsParen (fst e) = containsParen stem"
    using n e by (auto simp: containsParen_def)
  also have "\<dots> = (cleanFilename stem \<noteq> stem)"
    using c cleanFilename_no_paren [of stem] by auto
  also have "\<dots> = (cleanFilename (fst e) \<noteq> fst e)"
    using n d e by (simp add: cleanFilename_append)
  finally show ?thesis .
qed


section \<open>Evaluation on concrete names\<close>

lemmas names =
  Base_def Dir_def Join_def Stat_def ReadDir_def WalkDir_def hasSuffix_def trimSuffix_def
  containsParen_def Ext_def asciiFold_def toLower_def isDigit_def imageBase_def imageExt_def
  cleanBaseOnly_def exactImagePath_def candidate_def numberedImage_def cleanImage_def
  numberedImageExists_def cleanImageExists_def findImage_def regular_def folder_def
  originalPath_def


section \<open>What the steps of a run leave unchanged\<close>

lemma print_simps [simp]:
  "disk (print l st) = disk st" "calls (print l st) = calls st"
  "out (print l st) = out st @ [Stdout l]" "foundChanges (print l st) = foundChanges st"
  "skipped (print l st) = skipped st" "xmpFiles (print l st) = xmpFiles st"
  by (simp_all add: print_def)

lemma printErr_simps [simp]:
  "disk (printErr l st) = disk st" "calls (printErr l st) = calls st"
  "out (printErr l st) = out st @ [Stderr l]" "foundChanges (printErr l st) = foundChanges st"
  "skipped (printErr l st) = skipped st" "xmpFiles (printErr l st) = xmpFiles st"
  by (simp_all add: printErr_def)

lemma start_simps [simp]:
  "disk (start fs) = fs" "calls (start fs) = []" "out (start fs) = []"
  "foundChanges (start fs) = 0" "skipped (start fs) = 0" "xmpFiles (start fs) = []"
  by (simp_all add: start_def)

lemma foldl_keeps: "(\<And>s x. g (f s x) = g s) \<Longrightarrow> g (foldl f s xs) = g s"
  by (induction xs arbitrary: s) simp_all

lemma dupSummary_keeps [simp]:
  "disk (dupSummary a st) = disk st" "calls (dupSummary a st) = calls st"
  "foundChanges (dupSummary a st) = foundChanges st"
  by (simp_all add: dupSummary_def Let_def)

lemma xmpSummary_keeps [simp]:
  "disk (xmpSummary a st) = disk st" "calls (xmpSummary a st) = calls st"
  "foundChanges (xmpSummary a st) = foundChanges st" "skipped (xmpSummary a st) = skipped st"
  "xmpFiles (xmpSummary a st) = xmpFiles st"
  by (simp_all add: xmpSummary_def Let_def)

lemma dupAct_preview:
  "disk (dupAct False dir st p dec) = disk st" "calls (dupAct False dir st p dec) = calls st"
  by (cases dec; simp add: dupAct_def Let_def)+

lemma xmpAct_preview:
  "disk (xmpAct False dir st p dec) = disk st" "calls (xmpAct False dir st p dec) = calls st"
  by (cases dec; simp add: xmpAct_def Let_def)+


section \<open>Removing a file\<close>

text \<open>An entry of a directory is found by \<^verbatim>\<open>os.Stat\<close> under its name.\<close>

lemma sibling_Stat:
  assumes "(n, i) \<in> set (ReadDir fs d)" and "n \<notin> {[], ''.'', ''..''}"
  shows "Stat fs (Join d n) \<noteq> None"
proof -
  from assms(1) obtain r where r: "r \<in> set fs" and ne: "fst r \<noteq> []"
    and dir: "Dir (fst r) = d" and base: "Base (fst r) = n"
    by (auto simp: ReadDir_def)
  from ne have "fst r = butlast (fst r) @ [last (fst r)]" by simp
  with ne dir base have "fst r = d @ [n]" by (simp add: Dir_def Base_def)
  with assms(2) have "Join d n = fst r" by (simp add: Join_def)
  moreover from r have "map_of fs (fst r) \<noteq> None"
    by (simp add: map_of_eq_None_iff)
  ultimately show ?thesis by (simp add: Stat_def)
qed

lemma Stat_filter:
  "Stat (filter (\<lambda>r. fst r \<notin> R) fs) q = (if q \<in> R then None else Stat fs q)"
  by (induction fs) (auto simp: Stat_def)

lemma Stat_Remove:
  "Remove fs p = Inr fs' \<Longrightarrow> Stat fs' q = (if q = p then None else Stat fs q)"
  using Stat_filter [of "{p}" fs q]
  by (auto simp: Remove_def split: option.splits if_splits)

lemma Remove_file:
  "Stat fs p = Some d \<Longrightarrow> \<not> IsDir d \<Longrightarrow> Remove fs p = Inr (filter (\<lambda>r. fst r \<noteq> p) fs)"
  by (simp add: Remove_def)


section \<open>The decisions of \<open>handleXMPRenaming\<close>\<close>

text \<open>The second test of \<open>exactImagePath\<close> is made on the filesystem of the first, so
  only four of the decisions are ever taken.\<close>

lemma xmpDecide_simple:
  "xmpDecide EqualFold fs row =
     (if IsDir (snd row) \<or> \<not> hasSuffix (Base (fst row)) ''.xmp'' then NotSidecar
      else if Stat fs (exactImagePath (fst row)) \<noteq> None then AlreadyCorrect
      else if cleanImageExists EqualFold fs (fst row) \<and> numberedImageExists EqualFold fs (fst row) then Ambiguous
      else Orphaned)"
  by (simp add: xmpDecide_def Let_def split: option.splits)

lemma xmpDecide_range:
  "xmpDecide EqualFold fs row \<in> {NotSidecar, AlreadyCorrect, Ambiguous, Orphaned}"
  by (simp add: xmpDecide_simple)

lemma xmpAct_idle:
  "xmpAct a dir st p NotSidecar = st" "xmpAct a dir st p AlreadyCorrect = st"
  "xmpAct a dir st p Ambiguous = st"
  by (simp_all add: xmpAct_def)

lemma xmpAct_Orphaned:
  "out (xmpAct a dir st p Orphaned) =
     out st @ Stdout (orphanLine dir p) #
       (if a then
          (case Remove (disk st) p of
             Inl e \<Rightarrow> [Stderr (''Error removing '' @ pathStr p @ '': remove '' @ pathStr p
                              @ '': '' @ errnoText e)]
           | Inr fs' \<Rightarrow> [])
        else [])"
  "foundChanges (xmpAct a dir st p Orphaned) = foundChanges st + 1"
  "calls (xmpAct a dir st p Orphaned) = calls st @ (if a then [CallRemove p] else [])"
  "disk (xmpAct a dir st p Orphaned) =
     (if a then (case Remove (disk st) p of Inl e \<Rightarrow> disk st | Inr fs' \<Rightarrow> fs') else disk st)"
  "skipped (xmpAct a dir st p Orphaned) = skipped st"
  "xmpFiles (xmpAct a dir st p Orphaned) = xmpFiles st"
  by (simp_all add: xmpAct_def Let_def removeOrReport_def split: sum.splits)

lemma xmpVisit_cases:
  "xmpVisit EqualFold a dir st row = st
   \<or> (\<not> IsDir (snd row) \<and> hasSuffix (Base (fst row)) ''.xmp''
      \<and> xmpVisit EqualFold a dir st row = xmpAct a dir st (fst row) Orphaned)"
  by (simp add: xmpVisit_def xmpDecide_simple xmpAct_idle)

lemma xmpWalk_calls:
  "c \<in> set (calls (foldl (xmpVisit EqualFold a dir) s rows)) \<Longrightarrow>
     c \<in> set (calls s)
     \<or> (\<exists>r\<in>set rows. c = CallRemove (fst r) \<and> \<not> IsDir (snd r)
           \<and> hasSuffix (Base (fst r)) ''.xmp'')"
proof (induction rows arbitrary: s)
  case Nil
  then show ?case by simp
next
  case (Cons x rows)
  from Cons.prems have "c \<in> set (calls (foldl (xmpVisit EqualFold a dir) (xmpVisit EqualFold a dir s x) rows))"
    by simp
  from Cons.IH [OF this] xmpVisit_cases [of EqualFold a dir s x] show ?case
    by (auto simp: xmpAct_Orphaned split: if_splits)
qed

lemma xmpFiles_walk: "xmpFiles (xmpWalk EqualFold dir a fs) = []"
proof -
  have "xmpFiles (foldl (xmpVisit EqualFold a dir) (start fs) (WalkDir fs dir)) = xmpFiles (start fs)"
  proof (rule foldl_keeps)
    fix s x
    from xmpVisit_cases [of EqualFold a dir s x]
    show "xmpFiles (xmpVisit EqualFold a dir s x) = xmpFiles s"
      by (auto simp: xmpAct_Orphaned)
  qed
  then show ?thesis by (simp add: xmpWalk_def)
qed

lemma skipped_walk: "skipped (xmpWalk EqualFold dir a fs) = 0"
proof -
  have "skipped (foldl (xmpVisit EqualFold a dir) (start fs) (WalkDir fs dir)) = skipped (start fs)"
  proof (rule foldl_keeps)
    fix s x
    from xmpVisit_cases [of EqualFold a dir s x]
    show "skipped (xmpVisit EqualFold a dir s x) = skipped s"
      by (auto simp: xmpAct_Orphaned)
  qed
  then show ?thesis by (simp add: xmpWalk_def)
qed

text \<open>So \<open>xmpFiles\<close> stays empty and the loop of renames has nothing to do.\<close>

lemma handleXMPRenaming_walk:
  "handleXMPRenaming EqualFold dir a fs = xmpSummary a (xmpWalk EqualFold dir a fs)"
  by (simp add: handleXMPRenaming_def Let_def xmpFiles_walk)

lemma list_ex_member: "x \<in> set xs \<Longrightarrow> P x \<Longrightarrow> list_ex P xs"
  by (auto simp: list_ex_iff)

lemma no_candidate:
  assumes "\<not> list_ex (candidate EqualFold p) (ReadDir fs (Dir p))"
  shows "\<not> cleanImageExists EqualFold fs p" and "\<not> numberedImageExists EqualFold fs p" and "findImage EqualFold fs p = None"
proof -
  from assms have none: "\<forall>e\<in>set (ReadDir fs (Dir p)). \<not> candidate EqualFold p e"
    by (simp add: list_ex_iff)
  then show "\<not> cleanImageExists EqualFold fs p" and "\<not> numberedImageExists EqualFold fs p"
    by (auto simp: cleanImageExists_def numberedImageExists_def list_ex_iff cleanImage_def
        numberedImage_def)
  from none have "find (numberedImage EqualFold p) (ReadDir fs (Dir p)) = None"
    and "find (cleanImage EqualFold p) (ReadDir fs (Dir p)) = None"
    by (auto simp: find_None_iff numberedImage_def cleanImage_def)
  then show "findImage EqualFold fs p = None" by (simp add: findImage_def)
qed


section \<open>The decisions of \<open>handleDuplicates\<close>\<close>

lemma dupDecide_deletable: "dupDecide fs row \<noteq> NoDecision \<Longrightarrow> dupDeletable row"
  by (auto simp: dupDecide_def dupDeletable_def Let_def split: if_splits)

lemma dupDecide_marked:
  assumes "\<not> IsDir d" and "\<not> hasSuffix (Base p) ''.xmp''" and "cleanFilename (Base p) \<noteq> Base p"
  shows "dupDecide fs (p, d) =
     (case (Stat fs p, Stat fs (originalPath p)) of
        (Some info1, Some info2) \<Rightarrow>
          if Size info1 = Size info2 then DuplicatePair (originalPath p) (Size info1) else NoDecision
      | _ \<Rightarrow> NoDecision)"
proof -
  from assms(3) have "containsParen (Base p)"
    using cleanFilename_no_paren [of "Base p"] by blast
  with assms show ?thesis
    by (auto simp: dupDecide_def Let_def split: option.splits)
qed

lemma dupAct_pair:
  "out (dupAct a dir st p (DuplicatePair original sz)) =
     out st @ Stdout (Rel dir original @ '' <-> '' @ Rel dir p @ '' (Size: '' @ showNat sz
                      @ '' bytes)'') #
       (if a then
          (case Remove (disk st) p of
             Inl e \<Rightarrow> [Stderr (''Error removing '' @ pathStr p @ '': remove '' @ pathStr p
                              @ '': '' @ errnoText e)]
           | Inr fs' \<Rightarrow> [Stdout (''  Removed: '' @ pathStr p)])
        else [])"
  "foundChanges (dupAct a dir st p (DuplicatePair original sz)) = foundChanges st + 1"
  "calls (dupAct a dir st p (DuplicatePair original sz)) =
     calls st @ (if a then [CallRemove p] else [])"
  "disk (dupAct a dir st p (DuplicatePair original sz)) =
     (if a then (case Remove (disk st) p of Inl e \<Rightarrow> disk st | Inr fs' \<Rightarrow> fs') else disk st)"
  by (simp_all add: dupAct_def Let_def removeOrReport_def split: sum.splits)

lemma dupVisit_cases:
  "dupVisit a dir st row = st
   \<or> (dupDeletable row
      \<and> (\<exists>original sz. dupDecide (disk st) row = DuplicatePair original sz
            \<and> dupVisit a dir st row = dupAct a dir st (fst row) (DuplicatePair original sz)))"
proof (cases "dupDecide (disk st) row")
  case NoDecision
  then show ?thesis by (simp add: dupVisit_def dupAct_def)
next
  case (DuplicatePair original sz)
  then have "dupDeletable row" by (intro dupDecide_deletable [of "disk st"]) simp
  with DuplicatePair show ?thesis by (simp add: dupVisit_def)
qed

lemma dupWalk_calls:
  "c \<in> set (calls (foldl (dupVisit a dir) s rows)) \<Longrightarrow>
     c \<in> set (calls s) \<or> (\<exists>r\<in>set rows. c = CallRemove (fst r) \<and> dupDeletable r)"
proof (induction rows arbitrary: s)
  case Nil
  then show ?case by simp
next
  case (Cons x rows)
  from Cons.prems have "c \<in> set (calls (foldl (dupVisit a dir) (dupVisit a dir s x) rows))"
    by simp
  from Cons.IH [OF this] dupVisit_cases [of a dir s x] show ?case
    by (auto simp: dupAct_pair split: if_splits)
qed

lemma Join_Dir_other: "p \<noteq> [] \<Longrightarrow> n \<noteq> Base p \<Longrightarrow> Join (Dir p) n \<noteq> p"
proof
  assume p: "p \<noteq> []" and n: "n \<noteq> Base p" and eq: "Join (Dir p) n = p"
  from p have len: "length (butlast p) < length p" by simp
  have len2: "length (butlast (butlast p)) \<le> length (butlast p)" by simp
  from eq consider "butlast p = p" | "butlast (butlast p) = p" | "butlast p @ [n] = p"
    by (auto simp: Join_def Dir_def split: if_splits)
  then show False
  proof cases
    case 1
    with len show False by simp
  next
    case 2
    with len len2 show False by simp
  next
    case 3
    then have "last (butlast p @ [n]) = last p" by simp
    with p n show False by (simp add: Base_def)
  qed
qed

lemma originalPath_other: "dupDeletable (p, d) \<Longrightarrow> originalPath p \<noteq> p"
proof -
  assume a: "dupDeletable (p, d)"
  then have "containsParen (Base p)"
    using cleanFilename_no_paren [of "Base p"] by (auto simp: dupDeletable_def)
  then have "p \<noteq> []" by (auto simp: Base_def containsParen_def)
  with a show ?thesis
    unfolding originalPath_def by (intro Join_Dir_other) (simp_all add: dupDeletable_def)
qed


section \<open>Runs on an independent walk\<close>

text \<open>During a run the filesystem is the one the run started on without the paths
  removed so far. On an independent walk no decision looks at a removed path, so every
  decision is the one taken on the filesystem of the start.\<close>

lemma dupDecide_cong:
  "Stat fs' (fst row) = Stat fs (fst row) \<Longrightarrow>
   Stat fs' (originalPath (fst row)) = Stat fs (originalPath (fst row)) \<Longrightarrow>
     dupDecide fs' row = dupDecide fs row"
  by (simp add: dupDecide_def Let_def)

lemma dupDecide_not_deletable: "\<not> dupDeletable row \<Longrightarrow> dupDecide fs row = NoDecision"
  using dupDecide_deletable [of fs row] by blast

lemma Remove_filter: "Remove fs p = Inr fs' \<Longrightarrow> fs' = filter (\<lambda>r. fst r \<notin> {p}) fs"
  by (auto simp: Remove_def split: option.splits if_splits)

lemma dupVisit_disk:
  "\<exists>R'. R' \<subseteq> (if dupDeletable row then {fst row} else {})
      \<and> disk (dupVisit a dir st row) = filter (\<lambda>r. fst r \<notin> R') (disk st)"
proof -
  from dupVisit_cases [of a dir st row]
  consider "dupVisit a dir st row = st"
    | original sz where "dupDeletable row"
        "dupVisit a dir st row = dupAct a dir st (fst row) (DuplicatePair original sz)"
    by blast
  then show ?thesis
  proof cases
    case 1
    then have "{} \<subseteq> (if dupDeletable row then {fst row} else {})
      \<and> disk (dupVisit a dir st row) = filter (\<lambda>r. fst r \<notin> {}) (disk st)"
      by simp
    then show ?thesis by blast
  next
    case 2
    show ?thesis
    proof (cases "a \<and> (\<exists>fs'. Remove (disk st) (fst row) = Inr fs')")
      case True
      then obtain fs' where rm: "Remove (disk st) (fst row) = Inr fs'" by blast
      from True 2 rm have "disk (dupVisit a dir st row) = fs'"
        by (simp add: dupAct_pair)
      with Remove_filter [OF rm] 2
      have "{fst row} \<subseteq> (if dupDeletable row then {fst row} else {})
        \<and> disk (dupVisit a dir st row) = filter (\<lambda>r. fst r \<notin> {fst row}) (disk st)"
        by simp
      then show ?thesis by blast
    next
      case False
      with 2 have "disk (dupVisit a dir st row) = disk st"
        by (cases "Remove (disk st) (fst row)") (auto simp: dupAct_pair)
      then have "{} \<subseteq> (if dupDeletable row then {fst row} else {})
        \<and> disk (dupVisit a dir st row) = filter (\<lambda>r. fst r \<notin> {}) (disk st)"
        by simp
      then show ?thesis by blast
    qed
  qed
qed

lemma dupDecisions_snapshot:
  assumes "disk st = filter (\<lambda>r. fst r \<notin> R) fs" and "R \<subseteq> D"
    and "\<forall>r\<in>set rows. dupDeletable r \<longrightarrow> fst r \<in> D \<and> fst r \<notin> R \<and> originalPath (fst r) \<notin> D"
    and "distinct (map fst (filter dupDeletable rows))"
  shows "dupDecisions a dir st rows = map (dupDecide fs) rows"
  using assms
proof (induction rows arbitrary: st R)
  case Nil
  then show ?case by simp
next
  case (Cons row rows)
  have here: "dupDecide (disk st) row = dupDecide fs row"
  proof (cases "dupDeletable row")
    case True
    with Cons.prems(3) have "fst row \<notin> R" and "originalPath (fst row) \<notin> D" by auto
    with Cons.prems(1,2) show ?thesis
      by (intro dupDecide_cong) (auto simp: Stat_filter)
  next
    case False
    then show ?thesis by (simp add: dupDecide_not_deletable)
  qed
  from dupVisit_disk [of row a dir st] obtain R'
    where R': "R' \<subseteq> (if dupDeletable row then {fst row} else {})"
      and d: "disk (dupVisit a dir st row) = filter (\<lambda>r. fst r \<notin> R') (disk st)"
    by blast
  from d Cons.prems(1) have 1: "disk (dupVisit a dir st row) = filter (\<lambda>r. fst r \<notin> R \<union> R') fs"
    by (simp add: conj_commute)
  from R' Cons.prems(2,3) have 2: "R \<union> R' \<subseteq> D"
    by (auto split: if_splits)
  have 3: "\<forall>r\<in>set rows. dupDeletable r \<longrightarrow>
      fst r \<in> D \<and> fst r \<notin> R \<union> R' \<and> originalPath (fst r) \<notin> D"
  proof (intro ballI impI)
    fix r
    assume r: "r \<in> set rows" and del: "dupDeletable r"
    with Cons.prems(3) have a: "fst r \<in> D" "fst r \<notin> R" "originalPath (fst r) \<notin> D" by auto
    have "fst r \<notin> R'"
    proof
      assume "fst r \<in> R'"
      with R' have row: "dupDeletable row" and eq: "fst r = fst row" by (auto split: if_splits)
      from row Cons.prems(4) have "fst row \<notin> fst ` set (filter dupDeletable rows)" by simp
      moreover from r del have "fst r \<in> fst ` set (filter dupDeletable rows)" by simp
      ultimately show False using eq by simp
    qed
    with a show "fst r \<in> D \<and> fst r \<notin> R \<union> R' \<and> originalPath (fst r) \<notin> D" by simp
  qed
  from Cons.prems(4) have 4: "distinct (map fst (filter dupDeletable rows))"
    by (simp split: if_splits)
  from Cons.IH [OF 1 2 3 4] here show ?case by simp
qed

lemma dup_found:
  "foundChanges (foldl (dupVisit a dir) st rows)
     = foundChanges st + length (filter (\<lambda>d. d \<noteq> NoDecision) (dupDecisions a dir st rows))"
proof (induction rows arbitrary: st)
  case Nil
  then show ?case by simp
next
  case (Cons row rows)
  have "foundChanges (dupVisit a dir st row)
     = foundChanges st + (if dupDecide (disk st) row \<noteq> NoDecision then 1 else 0)"
    by (cases "dupDecide (disk st) row") (simp_all add: dupVisit_def dupAct_pair, simp add: dupAct_def)
  with Cons.IH [of "dupVisit a dir st row"] show ?case by simp
qed

lemma dupIndependent_decisions:
  assumes "dupIndependent fs dir"
  shows "dupDecisions a dir (start fs) (WalkDir fs dir) = map (dupDecide fs) (WalkDir fs dir)"
proof -
  define D where "D = fst ` {q \<in> set (WalkDir fs dir). dupDeletable q}"
  have 1: "disk (start fs) = filter (\<lambda>r. fst r \<notin> {}) fs" by simp
  have 2: "{} \<subseteq> D" by simp
  have ind: "originalPath (fst r) \<noteq> fst q"
    if "r \<in> set (WalkDir fs dir)" and "dupDeletable r" and "q \<in> set (WalkDir fs dir)" and "dupDeletable q"
    for r q
  proof -
    from that have "r \<in> set (filter dupDeletable (WalkDir fs dir))"
      and "q \<in> set (filter dupDeletable (WalkDir fs dir))"
      by simp_all
    with assms show ?thesis
      unfolding dupIndependent_def Let_def list_all_iff by blast
  qed
  have 3: "\<forall>r\<in>set (WalkDir fs dir). dupDeletable r \<longrightarrow>
      fst r \<in> D \<and> fst r \<notin> {} \<and> originalPath (fst r) \<notin> D"
  proof (intro ballI impI conjI)
    fix r
    assume r: "r \<in> set (WalkDir fs dir)" and del: "dupDeletable r"
    then show "fst r \<in> D" by (simp add: D_def)
    show "fst r \<notin> {}" by simp
    show "originalPath (fst r) \<notin> D"
    proof
      assume "originalPath (fst r) \<in> D"
      then obtain q where "q \<in> set (WalkDir fs dir)" and "dupDeletable q"
        and "originalPath (fst r) = fst q"
        by (auto simp: D_def)
      with ind [OF r del] show False by blast
    qed
  qed
  from assms have 4: "distinct (map fst (filter dupDeletable (WalkDir fs dir)))"
    by (simp add: dupIndependent_def Let_def)
  from 1 2 3 4 show ?thesis by (rule dupDecisions_snapshot)
qed

lemma xmpDecide_cong:
  "Stat fs' (exactImagePath (fst row)) = Stat fs (exactImagePath (fst row)) \<Longrightarrow>
   cleanImageExists EqualFold fs' (fst row) = cleanImageExists EqualFold fs (fst row) \<Longrightarrow>
   numberedImageExists EqualFold fs' (fst row) = numberedImageExists EqualFold fs (fst row) \<Longrightarrow>
     xmpDecide EqualFold fs' row = xmpDecide EqualFold fs row"
  by (simp add: xmpDecide_simple)

lemma images_without_sidecars:
  assumes "\<forall>q\<in>R. hasSuffix (Base q) ''.xmp''"
  shows "cleanImageExists EqualFold (filter (\<lambda>r. fst r \<notin> R) fs) p = cleanImageExists EqualFold fs p"
    and "numberedImageExists EqualFold (filter (\<lambda>r. fst r \<notin> R) fs) p = numberedImageExists EqualFold fs p"
  using assms
  by (auto simp: cleanImageExists_def numberedImageExists_def list_ex_iff ReadDir_def
      cleanImage_def numberedImage_def candidate_def)

lemma xmpVisit_disk:
  "\<exists>R'. R' \<subseteq> (if xmpDeletable row then {fst row} else {})
      \<and> disk (xmpVisit EqualFold a dir st row) = filter (\<lambda>r. fst r \<notin> R') (disk st)"
proof -
  from xmpVisit_cases [of EqualFold a dir st row]
  consider "xmpVisit EqualFold a dir st row = st"
    | "xmpDeletable row" "xmpVisit EqualFold a dir st row = xmpAct a dir st (fst row) Orphaned"
    by (auto simp: xmpDeletable_def)
  then show ?thesis
  proof cases
    case 1
    then have "{} \<subseteq> (if xmpDeletable row then {fst row} else {})
      \<and> disk (xmpVisit EqualFold a dir st row) = filter (\<lambda>r. fst r \<notin> {}) (disk st)"
      by simp
    then show ?thesis by blast
  next
    case 2
    show ?thesis
    proof (cases "a \<and> (\<exists>fs'. Remove (disk st) (fst row) = Inr fs')")
      case True
      then obtain fs' where rm: "Remove (disk st) (fst row) = Inr fs'" by blast
      from True 2 rm have "disk (xmpVisit EqualFold a dir st row) = fs'"
        by (simp add: xmpAct_Orphaned)
      with Remove_filter [OF rm] 2
      have "{fst row} \<subseteq> (if xmpDeletable row then {fst row} else {})
        \<and> disk (xmpVisit EqualFold a dir st row) = filter (\<lambda>r. fst r \<notin> {fst row}) (disk st)"
        by simp
      then show ?thesis by blast
    next
      case False
      with 2 have "disk (xmpVisit EqualFold a dir st row) = disk st"
        by (cases "Remove (disk st) (fst row)") (auto simp: xmpAct_Orphaned)
      then have "{} \<subseteq> (if xmpDeletable row then {fst row} else {})
        \<and> disk (xmpVisit EqualFold a dir st row) = filter (\<lambda>r. fst r \<notin> {}) (disk st)"
        by simp
      then show ?thesis by blast
    qed
  qed
qed

lemma xmpDecide_not_deletable: "\<not> xmpDeletable row \<Longrightarrow> xmpDecide EqualFold fs row = NotSidecar"
  by (auto simp: xmpDecide_simple xmpDeletable_def)

lemma xmpDecisions_snapshot:
  assumes "disk st = filter (\<lambda>r. fst r \<notin> R) fs" and "R \<subseteq> D"
    and "\<forall>q\<in>D. hasSuffix (Base q) ''.xmp''"
    and "\<forall>r\<in>set rows. xmpDeletable r \<longrightarrow> fst r \<in> D \<and> exactImagePath (fst r) \<notin> D"
  shows "xmpDecisions EqualFold a dir st rows = map (xmpDecide EqualFold fs) rows"
  using assms
proof (induction rows arbitrary: st R)
  case Nil
  then show ?case by simp
next
  case (Cons row rows)
  from Cons.prems(2,3) have sfx: "\<forall>q\<in>R. hasSuffix (Base q) ''.xmp''" by blast
  have here: "xmpDecide EqualFold (disk st) row = xmpDecide EqualFold fs row"
  proof (cases "xmpDeletable row")
    case True
    with Cons.prems(4) have "exactImagePath (fst row) \<notin> D" by auto
    with Cons.prems(1,2) sfx show ?thesis
      by (intro xmpDecide_cong) (auto simp: Stat_filter images_without_sidecars)
  next
    case False
    then show ?thesis by (simp add: xmpDecide_not_deletable)
  qed
  from xmpVisit_disk [of row EqualFold a dir st] obtain R'
    where R': "R' \<subseteq> (if xmpDeletable row then {fst row} else {})"
      and d: "disk (xmpVisit EqualFold a dir st row) = filter (\<lambda>r. fst r \<notin> R') (disk st)"
    by blast
  from d Cons.prems(1) have 1: "disk (xmpVisit EqualFold a dir st row) = filter (\<lambda>r. fst r \<notin> R \<union> R') fs"
    by (simp add: conj_commute)
  from R' Cons.prems(2,4) have 2: "R \<union> R' \<subseteq> D"
    by (auto split: if_splits)
  from Cons.prems(4) have 4: "\<forall>r\<in>set rows. xmpDeletable r \<longrightarrow>
      fst r \<in> D \<and> exactImagePath (fst r) \<notin> D"
    by simp
  from Cons.IH [OF 1 2 Cons.prems(3) 4] here show ?case by simp
qed

lemma xmp_found:
  "foundChanges (foldl (xmpVisit EqualFold a dir) st rows)
     = foundChanges st + length (filter (\<lambda>d. d = Orphaned) (xmpDecisions EqualFold a dir st rows))"
proof (induction rows arbitrary: st)
  case Nil
  then show ?case by simp
next
  case (Cons row rows)
  from xmpDecide_range [of EqualFold "disk st" row]
  have "foundChanges (xmpVisit EqualFold a dir st row)
     = foundChanges st + (if xmpDecide EqualFold (disk st) row = Orphaned then 1 else 0)"
    by (auto simp: xmpVisit_def xmpAct_idle xmpAct_Orphaned)
  with Cons.IH [of "xmpVisit EqualFold a dir st row"] show ?case by simp
qed

lemma xmpIndependent_decisions:
  assumes "xmpIndependent fs dir"
  shows "xmpDecisions EqualFold a dir (start fs) (WalkDir fs dir) = map (xmpDecide EqualFold fs) (WalkDir fs dir)"
proof -
  define D where "D = fst ` {q \<in> set (WalkDir fs dir). xmpDeletable q}"
  have 1: "disk (start fs) = filter (\<lambda>r. fst r \<notin> {}) fs" by simp
  have 2: "{} \<subseteq> D" by simp
  have 3: "\<forall>q\<in>D. hasSuffix (Base q) ''.xmp''"
    by (auto simp: D_def xmpDeletable_def)
  have ind: "exactImagePath (fst r) \<noteq> fst q"
    if "r \<in> set (WalkDir fs dir)" and "xmpDeletable r" and "q \<in> set (WalkDir fs dir)" and "xmpDeletable q"
    for r q
  proof -
    from that have "r \<in> set (filter xmpDeletable (WalkDir fs dir))"
      and "q \<in> set (filter xmpDeletable (WalkDir fs dir))"
      by simp_all
    with assms show ?thesis
      unfolding xmpIndependent_def Let_def list_all_iff by blast
  qed
  have 4: "\<forall>r\<in>set (WalkDir fs dir). xmpDeletable r \<longrightarrow>
      fst r \<in> D \<and> exactImagePath (fst r) \<notin> D"
  proof (intro ballI impI conjI)
    fix r
    assume r: "r \<in> set (WalkDir fs dir)" and del: "xmpDeletable r"
    then show "fst r \<in> D" by (simp add: D_def)
    show "exactImagePath (fst r) \<notin> D"
    proof
      assume "exactImagePath (fst r) \<in> D"
      then obtain q where "q \<in> set (WalkDir fs dir)" and "xmpDeletable q"
        and "exactImagePath (fst r) = fst q"
        by (auto simp: D_def)
      with ind [OF r del] show False by blast
    qed
  qed
  from 1 2 3 4 show ?thesis by (rule xmpDecisions_snapshot)
qed

lemma preview_decisions:
  "dupDecisions False dir st rows = map (dupDecide (disk st)) rows"
  "xmpDecisions EqualFold False dir st rows = map (xmpDecide EqualFold (disk st)) rows"
proof -
  show "dupDecisions False dir st rows = map (dupDecide (disk st)) rows"
    by (induction rows arbitrary: st) (simp_all add: dupVisit_def dupAct_preview)
  show "xmpDecisions EqualFold False dir st rows = map (xmpDecide EqualFold (disk st)) rows"
    by (induction rows arbitrary: st) (simp_all add: xmpVisit_def xmpAct_preview)
qed


section \<open>A sidecar whose image is never removed\<close>

text \<open>
  In a run, the files gone from the disk are sidecars that the walk has visited (and,
  without \<open>apply\<close>, none). While the image \<open>exactImagePath\<close> of a sidecar is not among
  them, each visit of the sidecar finds it and leaves the sidecar where it is.
\<close>

lemma image_kept:
  assumes "disk st = filter (\<lambda>r. fst r \<notin> R) fs" and "R \<subseteq> D"
    and "\<forall>r\<in>set rows. a \<and> xmpDeletable r \<longrightarrow> fst r \<in> D"
    and "exactImagePath p \<notin> D" and "Stat fs (exactImagePath p) \<noteq> None"
    and "p \<notin> R" and "CallRemove p \<notin> set (calls st)"
  shows "(\<forall>x\<in>set (zip rows (xmpDecisions EqualFold a dir st rows)).
            fst (fst x) = p \<and> xmpDeletable (fst x) \<longrightarrow> snd x = AlreadyCorrect)
    \<and> CallRemove p \<notin> set (calls (foldl (xmpVisit EqualFold a dir) st rows))
    \<and> Stat (disk (foldl (xmpVisit EqualFold a dir) st rows)) p = Stat fs p"
  using assms
proof (induction rows arbitrary: st R)
  case Nil
  then show ?case by (simp add: Stat_filter)
next
  case (Cons row rows)
  from Cons.prems(1,2,4,5) have img: "Stat (disk st) (exactImagePath p) \<noteq> None"
    by (auto simp: Stat_filter)
  have dec: "xmpDecide EqualFold (disk st) row = AlreadyCorrect" if "fst row = p" and "xmpDeletable row"
    using that img by (simp add: xmpDecide_simple xmpDeletable_def)
  have same: "xmpVisit EqualFold a dir st row = st" if "fst row = p"
  proof (cases "xmpDeletable row")
    case True
    with that dec show ?thesis by (simp add: xmpVisit_def xmpAct_idle)
  next
    case False
    then show ?thesis by (simp add: xmpVisit_def xmpDecide_not_deletable xmpAct_idle)
  qed
  have "\<exists>R'. R' \<subseteq> (if a \<and> xmpDeletable row \<and> fst row \<noteq> p then {fst row} else {})
      \<and> disk (xmpVisit EqualFold a dir st row) = filter (\<lambda>r. fst r \<notin> R') (disk st)"
  proof (cases "fst row = p")
    case True
    with same have "disk (xmpVisit EqualFold a dir st row) = filter (\<lambda>r. fst r \<notin> {}) (disk st)"
      by simp
    then show ?thesis by blast
  next
    case False
    show ?thesis
    proof (cases a)
      case True
      with False xmpVisit_disk [of row EqualFold a dir st] show ?thesis by simp
    next
      case False
      then have "disk (xmpVisit EqualFold a dir st row) = filter (\<lambda>r. fst r \<notin> {}) (disk st)"
        by (simp add: xmpVisit_def xmpAct_preview)
      then show ?thesis by blast
    qed
  qed
  then obtain R'
    where R': "R' \<subseteq> (if a \<and> xmpDeletable row \<and> fst row \<noteq> p then {fst row} else {})"
      and d: "disk (xmpVisit EqualFold a dir st row) = filter (\<lambda>r. fst r \<notin> R') (disk st)"
    by blast
  from d Cons.prems(1) have 1: "disk (xmpVisit EqualFold a dir st row) = filter (\<lambda>r. fst r \<notin> R \<union> R') fs"
    by (simp add: conj_commute)
  from R' Cons.prems(2,3) have 2: "R \<union> R' \<subseteq> D"
    by (auto split: if_splits)
  from Cons.prems(3) have 3: "\<forall>r\<in>set rows. a \<and> xmpDeletable r \<longrightarrow> fst r \<in> D"
    by simp
  from R' Cons.prems(6) have 6: "p \<notin> R \<union> R'"
    by (auto split: if_splits)
  have 7: "CallRemove p \<notin> set (calls (xmpVisit EqualFold a dir st row))"
  proof (cases "fst row = p")
    case True
    with same Cons.prems(7) show ?thesis by simp
  next
    case False
    with xmpVisit_cases [of EqualFold a dir st row] Cons.prems(7) show ?thesis
      by (auto simp: xmpAct_Orphaned)
  qed
  from Cons.IH [OF 1 2 3 Cons.prems(4,5) 6 7] dec show ?case by auto
qed


section \<open>Whole runs on the example directories\<close>

lemmas run_defs =
  handleXMPRenaming_walk xmpWalk_def xmpVisit_def xmpDecide_simple xmpAct_idle xmpAct_Orphaned
  xmpSummary_def handleDuplicates_def dupVisit_def dupDecide_def dupAct_def dupSummary_def
  removeOrReport_def Remove_def print_def printErr_def start_def orphanLine_def Rel_def
  pathStr_def Let_def


text \<open>
  The relation \<open>EqualFold\<close> decides the run on \<open>accented\<close>. Under a relation that, as the
  folding of Unicode does, relates the capital letter to the small one, both images
  are candidates of the sidecar: the decision is \<open>Ambiguous\<close> and the run with \<open>apply\<close>
  changes nothing. Under \<open>asciiFold\<close>, which is not the folding of Unicode on these
  names, there is no candidate and the sidecar is an orphan.
\<close>

lemma accented_ambiguous:
  assumes "EqualFold ''.jpg'' ''.jpg''"
    and "EqualFold [CHR 0xC3, CHR 0x89] [CHR 0xC3, CHR 0xA9]"
  shows "xmpDecide EqualFold accented
           ([''d'', [CHR 0xC3, CHR 0xA9] @ '' (2).jpg.xmp''], regular 3) = Ambiguous"
    and "handleXMPRenaming EqualFold [''d''] True accented
        = \<lparr>disk = accented, out = [Stdout ''No XMP files need renaming.''], calls = [],
           foundChanges = 0, skipped = 0, xmpFiles = []\<rparr>"
  using assms by (simp_all add: run_defs names accented_def)

lemma accented_asciiFold:
  "xmpDecide asciiFold accented
     ([''d'', [CHR 0xC3, CHR 0xA9] @ '' (2).jpg.xmp''], regular 3) = Orphaned"
  by (simp add: run_defs names accented_def)


section \<open>The claims\<close>

text \<open>
  \<^bold>\<open>C1\<close>. Without \<open>apply\<close> neither handler changes the filesystem, and neither calls
  \<^verbatim>\<open>os.Remove\<close> or \<^verbatim>\<open>os.Rename\<close>: after the run the filesystem is the one the run
  started on, and the record of the calls is empty.
\<close>

theorem preview_never_mutates:
  "disk (handleDuplicates dir False fs) = fs \<and> calls (handleDuplicates dir False fs) = []
   \<and> disk (handleXMPRenaming EqualFold dir False fs) = fs \<and> calls (handleXMPRenaming EqualFold dir False fs) = []"
proof -
  have "disk (foldl (dupVisit False dir) (start fs) (WalkDir fs dir)) = disk (start fs)"
    by (rule foldl_keeps) (simp add: dupVisit_def dupAct_preview)
  moreover have "calls (foldl (dupVisit False dir) (start fs) (WalkDir fs dir)) = calls (start fs)"
    by (rule foldl_keeps) (simp add: dupVisit_def dupAct_preview)
  moreover have "disk (foldl (xmpVisit EqualFold False dir) (start fs) (WalkDir fs dir)) = disk (start fs)"
    by (rule foldl_keeps) (simp add: xmpVisit_def xmpAct_preview)
  moreover have "calls (foldl (xmpVisit EqualFold False dir) (start fs) (WalkDir fs dir)) = calls (start fs)"
    by (rule foldl_keeps) (simp add: xmpVisit_def xmpAct_preview)
  ultimately show ?thesis
    by (simp add: handleDuplicates_def handleXMPRenaming_def xmpWalk_def)
qed

text \<open>
  \<^bold>\<open>C2\<close>. A sidecar on disk whose image \<open>exactImagePath\<close> does not exist, for which the
  directory is not ambiguous and \<open>findImage\<close> has found an image, is decided \<open>Orphaned\<close>:
  the line of an orphan is printed and, with \<open>apply\<close>, the sidecar is removed (and
  nothing else). The code after the second test of \<open>exactImagePath\<close> is never reached: on
  every filesystem and entry the decision is one of the four taken before it, so in
  every run \<open>xmpFiles\<close> stays empty, nothing is skipped and \<^verbatim>\<open>os.Rename\<close> is not called.
  The candidates are those of the code under the relation \<open>EqualFold\<close>, whatever it is.
\<close>

theorem recheck_forces_orphaned:
  assumes "\<not> IsDir d" and "hasSuffix (Base p) ''.xmp''" and "Stat (disk st) p = Some d"
    and "Stat (disk st) (exactImagePath p) = None"
    and "\<not> (cleanImageExists EqualFold (disk st) p \<and> numberedImageExists EqualFold (disk st) p)"
    and "findImage EqualFold (disk st) p = Some foundImage"
  shows "xmpDecide EqualFold (disk st) (p, d) = Orphaned
    \<and> out (xmpVisit EqualFold apply dir st (p, d))
        = out st @ [Stdout (''[REMOVE] '' @ Rel dir p @ '' (orphaned XMP, no base file exists)'')]
    \<and> calls (xmpVisit EqualFold apply dir st (p, d)) = calls st @ (if apply then [CallRemove p] else [])
    \<and> disk (xmpVisit EqualFold apply dir st (p, d))
        = (if apply then filter (\<lambda>r. fst r \<noteq> p) (disk st) else disk st)
    \<and> xmpDecide EqualFold fs row \<in> {NotSidecar, AlreadyCorrect, Ambiguous, Orphaned}
    \<and> xmpFiles (xmpWalk EqualFold dir apply fs) = []
    \<and> skipped (handleXMPRenaming EqualFold dir apply fs) = 0
    \<and> CallRename src dst \<notin> set (calls (handleXMPRenaming EqualFold dir apply fs))"
proof -
  have dec: "xmpDecide EqualFold (disk st) (p, d) = Orphaned"
    using assms by (simp add: xmpDecide_simple)
  have rm: "Remove (disk st) p = Inr (filter (\<lambda>r. fst r \<noteq> p) (disk st))"
    using assms by (simp add: Remove_file)
  have norename: "CallRename src dst \<notin> set (calls (xmpWalk EqualFold dir apply fs))"
    using xmpWalk_calls [of "CallRename src dst" EqualFold _ dir "start fs" "WalkDir fs dir"]
    by (auto simp: xmpWalk_def)
  show ?thesis
    using dec rm norename xmpDecide_range [of EqualFold fs row]
    by (simp add: xmpVisit_def xmpAct_Orphaned orphanLine_def xmpFiles_walk
        handleXMPRenaming_walk skipped_walk)
qed

theorem recheck_forces_orphaned_witness:
  "\<not> IsDir (regular 3) \<and> hasSuffix (Base [''d'', ''c.png.xmp'']) ''.xmp''
   \<and> Stat (disk (start renumbered)) [''d'', ''c.png.xmp''] = Some (regular 3)
   \<and> Stat (disk (start renumbered)) (exactImagePath [''d'', ''c.png.xmp'']) = None
   \<and> \<not> (cleanImageExists asciiFold (disk (start renumbered)) [''d'', ''c.png.xmp'']
        \<and> numberedImageExists asciiFold (disk (start renumbered)) [''d'', ''c.png.xmp''])
   \<and> findImage asciiFold (disk (start renumbered)) [''d'', ''c.png.xmp''] = Some [''d'', ''c (1).png'']
   \<and> xmpDecide asciiFold (disk (start renumbered)) ([''d'', ''c.png.xmp''], regular 3) = Orphaned
   \<and> disk (xmpVisit asciiFold True [''d''] (start renumbered) ([''d'', ''c.png.xmp''], regular 3))
       = [([], folder), ([''d''], folder), ([''d'', ''c (1).png''], regular 7)]"
proof -
  have h1: "\<not> IsDir (regular 3)" by (simp add: regular_def)
  have h2: "hasSuffix (Base [''d'', ''c.png.xmp'']) ''.xmp''" by (simp add: names)
  have h3: "Stat (disk (start renumbered)) [''d'', ''c.png.xmp''] = Some (regular 3)"
    by (simp add: names renumbered_def)
  have h4: "Stat (disk (start renumbered)) (exactImagePath [''d'', ''c.png.xmp'']) = None"
    by (simp add: names renumbered_def)
  have h5: "\<not> (cleanImageExists asciiFold (disk (start renumbered)) [''d'', ''c.png.xmp'']
        \<and> numberedImageExists asciiFold (disk (start renumbered)) [''d'', ''c.png.xmp''])"
    by (simp add: names renumbered_def)
  have h6: "findImage asciiFold (disk (start renumbered)) [''d'', ''c.png.xmp''] = Some [''d'', ''c (1).png'']"
    by (simp add: names renumbered_def)
  from recheck_forces_orphaned [OF h1 h2 h3 h4 h5 h6, of True "[''d'']"]
  have "xmpDecide asciiFold (disk (start renumbered)) ([''d'', ''c.png.xmp''], regular 3) = Orphaned"
    and "disk (xmpVisit asciiFold True [''d''] (start renumbered) ([''d'', ''c.png.xmp''], regular 3))
       = filter (\<lambda>r. fst r \<noteq> [''d'', ''c.png.xmp'']) (disk (start renumbered))"
    by simp_all
  then show ?thesis using h1 h2 h3 h4 h5 h6 by (simp add: renumbered_def)
qed

text \<open>
  \<^bold>\<open>C3\<close> (amended). For an entry that is no sidecar and whose name \<open>cleanFilename\<close>
  changes, a pair is decided exactly when the entry is not a directory and \<^verbatim>\<open>os.Stat\<close>
  succeeds on the entry and on \<open>originalPath\<close> and reports the same size for both; the
  pair then names \<open>originalPath\<close> and that size. When \<open>originalPath\<close> does not exist or
  the sizes differ, nothing is decided. It is the entry that has to be a file; whether
  \<open>originalPath\<close> is one is not asked.
\<close>

theorem duplicate_pair_iff:
  assumes "\<not> hasSuffix (Base p) ''.xmp''" and "cleanFilename (Base p) \<noteq> Base p"
  shows "(dupDecide fs (p, d) \<noteq> NoDecision)
      = (\<not> IsDir d
         \<and> (\<exists>info1 info2. Stat fs p = Some info1 \<and> Stat fs (originalPath p) = Some info2
               \<and> Size info1 = Size info2))
    \<and> dupDecide fs (p, d) \<in> {NoDecision, DuplicatePair (originalPath p) (Size (the (Stat fs p)))}"
proof (cases "IsDir d")
  case True
  then show ?thesis by (simp add: dupDecide_def)
next
  case False
  from dupDecide_marked [OF False assms, of fs] False show ?thesis
    by (auto split: option.splits if_splits)
qed

theorem duplicate_pair_iff_witness:
  "\<not> hasSuffix (Base [''d'', ''photo (1).jpg'']) ''.xmp''
   \<and> cleanFilename (Base [''d'', ''photo (1).jpg'']) \<noteq> Base [''d'', ''photo (1).jpg'']
   \<and> \<not> IsDir (regular 500)
   \<and> Stat photos [''d'', ''photo (1).jpg''] = Some (regular 500)
   \<and> Stat photos (originalPath [''d'', ''photo (1).jpg'']) = Some (regular 500)
   \<and> dupDecide photos ([''d'', ''photo (1).jpg''], regular 500) \<noteq> NoDecision"
proof -
  have h1: "\<not> hasSuffix (Base [''d'', ''photo (1).jpg'']) ''.xmp''" by (simp add: names)
  have h2: "cleanFilename (Base [''d'', ''photo (1).jpg'']) \<noteq> Base [''d'', ''photo (1).jpg'']"
    by (simp add: names)
  have f: "\<not> IsDir (regular 500)" by (simp add: regular_def)
  have s1: "Stat photos [''d'', ''photo (1).jpg''] = Some (regular 500)"
    by (simp add: names photos_def)
  have s2: "Stat photos (originalPath [''d'', ''photo (1).jpg'']) = Some (regular 500)"
    by (simp add: names photos_def)
  from duplicate_pair_iff [OF h1 h2, of photos "regular 500"] f s1 s2
  have "dupDecide photos ([''d'', ''photo (1).jpg''], regular 500) \<noteq> NoDecision" by simp
  with h1 h2 f s1 s2 show ?thesis by blast
qed

text \<open>
  The specification wants the original to be a regular file, and says nothing of the
  kind of the entry. In \<open>samesize\<close> the file \<open>x (1)\<close> is paired with the directory \<open>x\<close>
  of the same size and, with \<open>apply\<close>, removed, while the directory \<open>y (1)\<close> is not
  paired with the file \<open>y\<close> of the same size.
\<close>

theorem directory_paired_as_original:
  "\<not> IsDir (regular 4096) \<and> \<not> hasSuffix (Base [''d'', ''x (1)'']) ''.xmp''
   \<and> cleanFilename (Base [''d'', ''x (1)'']) \<noteq> Base [''d'', ''x (1)'']
   \<and> Stat samesize (originalPath [''d'', ''x (1)'']) = Some \<lparr>IsDir = True, Size = 4096\<rparr>
   \<and> dupDecide samesize ([''d'', ''x (1)''], regular 4096) = DuplicatePair [''d'', ''x''] 4096
   \<and> calls (handleDuplicates [''d''] True samesize) = [CallRemove [''d'', ''x (1)'']]
   \<and> Stat (disk (handleDuplicates [''d''] True samesize)) [''d'', ''x (1)''] = None
   \<and> cleanFilename (Base [''d'', ''y (1)'']) \<noteq> Base [''d'', ''y (1)'']
   \<and> Stat samesize [''d'', ''y (1)''] = Some \<lparr>IsDir = True, Size = 4096\<rparr>
   \<and> Stat samesize (originalPath [''d'', ''y (1)'']) = Some \<lparr>IsDir = False, Size = 4096\<rparr>
   \<and> dupDecide samesize ([''d'', ''y (1)''], folder) = NoDecision"
  by (simp add: run_defs names samesize_def)

text \<open>
  \<^bold>\<open>C4\<close>. When a visit decides a pair and \<open>apply\<close> is set, \<^verbatim>\<open>os.Remove\<close> is called once,
  on the visited file; the original is another path, it is still there after the visit,
  and no path but that of the visited file changes. Over a whole run every call is the
  removal of a file whose name \<open>cleanFilename\<close> changes, so a file with a clean name is
  never removed. On \<open>photos\<close>, with \<open>apply\<close> only \<open>photo (1).jpg\<close> is removed; without,
  nothing is removed and the one pair is printed, followed by the summary.
\<close>

theorem apply_removes_only_duplicate:
  assumes "dupDecide (disk st) (p, d) = DuplicatePair original sz"
  shows "original \<noteq> p
    \<and> calls (dupVisit True dir st (p, d)) = calls st @ [CallRemove p]
    \<and> (\<forall>q. q \<noteq> p \<longrightarrow> Stat (disk (dupVisit True dir st (p, d))) q = Stat (disk st) q)
    \<and> Stat (disk (dupVisit True dir st (p, d))) original \<noteq> None
    \<and> (Stat (disk st) p = Some d \<longrightarrow> Stat (disk (dupVisit True dir st (p, d))) p = None)
    \<and> (\<forall>c\<in>set (calls (handleDuplicates dir apply fs)).
          \<exists>q. c = CallRemove q \<and> cleanFilename (Base q) \<noteq> Base q)
    \<and> handleDuplicates [''d''] True photos
        = \<lparr>disk = [([], folder), ([''d''], folder), ([''d'', ''photo.jpg''], regular 500)],
           out = [Stdout ''photo.jpg <-> photo (1).jpg (Size: 500 bytes)'',
                  Stdout ''  Removed: /d/photo (1).jpg'', Stdout [],
                  Stdout ''Found 1 duplicate pair(s).'', Stdout ''Removed all duplicates.''],
           calls = [CallRemove [''d'', ''photo (1).jpg'']],
           foundChanges = 1, skipped = 0, xmpFiles = []\<rparr>
    \<and> handleDuplicates [''d''] False photos
        = \<lparr>disk = photos,
           out = [Stdout ''photo.jpg <-> photo (1).jpg (Size: 500 bytes)'', Stdout [],
                  Stdout ''Found 1 duplicate pair(s).''],
           calls = [], foundChanges = 1, skipped = 0, xmpFiles = []\<rparr>"
proof -
  from assms have del: "dupDeletable (p, d)"
    by (intro dupDecide_deletable [of "disk st"]) simp
  then have nd: "\<not> IsDir d" by (simp add: dupDeletable_def)
  from del have "dupDecide (disk st) (p, d) =
     (case (Stat (disk st) p, Stat (disk st) (originalPath p)) of
        (Some info1, Some info2) \<Rightarrow>
          if Size info1 = Size info2 then DuplicatePair (originalPath p) (Size info1) else NoDecision
      | _ \<Rightarrow> NoDecision)"
    by (intro dupDecide_marked) (simp_all add: dupDeletable_def)
  with assms have orig: "original = originalPath p" and ex: "Stat (disk st) original \<noteq> None"
    by (auto split: option.splits if_splits)
  from del orig have ne: "original \<noteq> p" by (simp add: originalPath_other)
  have v: "dupVisit True dir st (p, d) = dupAct True dir st p (DuplicatePair original sz)"
    using assms by (simp add: dupVisit_def)
  have frame: "Stat (disk (dupVisit True dir st (p, d))) q = Stat (disk st) q" if "q \<noteq> p" for q
    using that by (cases "Remove (disk st) p") (simp_all add: v dupAct_pair Stat_Remove)
  have gone: "Stat (disk (dupVisit True dir st (p, d))) p = None" if "Stat (disk st) p = Some d"
    using that nd by (simp add: v dupAct_pair Remove_file Stat_filter [of "{p}", simplified])
  have run: "\<exists>q. c = CallRemove q \<and> cleanFilename (Base q) \<noteq> Base q"
    if "c \<in> set (calls (handleDuplicates dir apply fs))" for c
    using that dupWalk_calls [of c "apply" dir "start fs" "WalkDir fs dir"]
    by (auto simp: handleDuplicates_def dupDeletable_def)
  have ex1: "handleDuplicates [''d''] True photos
        = \<lparr>disk = [([], folder), ([''d''], folder), ([''d'', ''photo.jpg''], regular 500)],
           out = [Stdout ''photo.jpg <-> photo (1).jpg (Size: 500 bytes)'',
                  Stdout ''  Removed: /d/photo (1).jpg'', Stdout [],
                  Stdout ''Found 1 duplicate pair(s).'', Stdout ''Removed all duplicates.''],
           calls = [CallRemove [''d'', ''photo (1).jpg'']],
           foundChanges = 1, skipped = 0, xmpFiles = []\<rparr>"
    by (simp add: run_defs names photos_def showNat.simps)
  have ex2: "handleDuplicates [''d''] False photos
        = \<lparr>disk = photos,
           out = [Stdout ''photo.jpg <-> photo (1).jpg (Size: 500 bytes)'', Stdout [],
                  Stdout ''Found 1 duplicate pair(s).''],
           calls = [], foundChanges = 1, skipped = 0, xmpFiles = []\<rparr>"
    by (simp add: run_defs names photos_def showNat.simps)
  from ne frame gone run ex ex1 ex2 show ?thesis
    by (simp add: v dupAct_pair)
qed

theorem apply_removes_only_duplicate_witness:
  "dupDecide (disk (start photos)) ([''d'', ''photo (1).jpg''], regular 500)
     = DuplicatePair [''d'', ''photo.jpg''] 500
   \<and> [''d'', ''photo.jpg''] \<noteq> [''d'', ''photo (1).jpg'']
   \<and> calls (dupVisit True [''d''] (start photos) ([''d'', ''photo (1).jpg''], regular 500))
       = [CallRemove [''d'', ''photo (1).jpg'']]
   \<and> Stat (disk (dupVisit True [''d''] (start photos) ([''d'', ''photo (1).jpg''], regular 500)))
        [''d'', ''photo.jpg''] \<noteq> None"
proof -
  have h: "dupDecide (disk (start photos)) ([''d'', ''photo (1).jpg''], regular 500)
     = DuplicatePair [''d'', ''photo.jpg''] 500"
    by (simp add: dupDecide_def names photos_def)
  note t = apply_removes_only_duplicate [OF h, of "[''d'']" True photos]
  from t have "[''d'', ''photo.jpg''] \<noteq> [''d'', ''photo (1).jpg'']" by blast
  moreover from t
  have "calls (dupVisit True [''d''] (start photos) ([''d'', ''photo (1).jpg''], regular 500))
       = calls (start photos) @ [CallRemove [''d'', ''photo (1).jpg'']]" by blast
  moreover from t
  have "Stat (disk (dupVisit True [''d''] (start photos) ([''d'', ''photo (1).jpg''], regular 500)))
        [''d'', ''photo.jpg''] \<noteq> None" by blast
  ultimately show ?thesis using h by simp
qed

text \<open>
  \<^bold>\<open>C5\<close> (amended). \<open>cleanFilename\<close> is idempotent on every unnested name, and
  \<open>a (1) (2).jpg\<close> is cleaned to \<open>a.jpg\<close>.
\<close>

theorem cleanFilename_idempotent_unnested:
  "(unnested x \<longrightarrow> cleanFilename (cleanFilename x) = cleanFilename x)
   \<and> cleanFilename ''a (1) (2).jpg'' = ''a.jpg''"
  by (simp add: cleanFilename_unnested isDigit_def)

theorem cleanFilename_idempotent_unnested_witness:
  "unnested ''a (1) (2).jpg''
   \<and> cleanFilename (cleanFilename ''a (1) (2).jpg'') = cleanFilename ''a (1) (2).jpg''"
proof -
  have u: "unnested ''a (1) (2).jpg''" by (simp add: unnested_def)
  with cleanFilename_idempotent_unnested [of "''a (1) (2).jpg''"] show ?thesis by blast
qed

text \<open>
  The specification says so of every name. \<open>cleanFilename\<close> removes the markers in one
  pass, and a removal can bring a new marker together: \<open>((1)2)\<close> becomes \<open>(2)\<close>, which
  is cleaned to the empty name.
\<close>

theorem cleanFilename_not_idempotent:
  "cleanFilename (cleanFilename ''((1)2)'') \<noteq> cleanFilename ''((1)2)''"
  by (simp add: isDigit_def)

text \<open>
  \<^bold>\<open>C6\<close> (amended). Without \<open>apply\<close> every decision is taken on the filesystem of the
  start. With \<open>apply\<close> a decision is taken on the filesystem as the removals before it
  have left it. On an independent walk the two runs take the same decisions, entry by
  entry, and count the same; this holds for \<open>handleDuplicates\<close> and for
  \<open>handleXMPRenaming\<close>.
\<close>

theorem independent_walks_decide_alike:
  "dupDecisions False dir (start fs) (WalkDir fs dir) = map (dupDecide fs) (WalkDir fs dir)
   \<and> xmpDecisions EqualFold False dir (start fs) (WalkDir fs dir) = map (xmpDecide EqualFold fs) (WalkDir fs dir)
   \<and> (dupIndependent fs dir \<longrightarrow>
        dupDecisions True dir (start fs) (WalkDir fs dir)
          = dupDecisions False dir (start fs) (WalkDir fs dir)
        \<and> foundChanges (handleDuplicates dir True fs) = foundChanges (handleDuplicates dir False fs))
   \<and> (xmpIndependent fs dir \<longrightarrow>
        xmpDecisions EqualFold True dir (start fs) (WalkDir fs dir)
          = xmpDecisions EqualFold False dir (start fs) (WalkDir fs dir)
        \<and> foundChanges (handleXMPRenaming EqualFold dir True fs) = foundChanges (handleXMPRenaming EqualFold dir False fs)
        \<and> skipped (handleXMPRenaming EqualFold dir True fs) = skipped (handleXMPRenaming EqualFold dir False fs))"
proof -
  have "foundChanges (xmpWalk EqualFold dir a fs)
      = length (filter (\<lambda>d. d = Orphaned) (xmpDecisions EqualFold a dir (start fs) (WalkDir fs dir)))"
    for a
    by (simp add: xmpWalk_def xmp_found)
  then show ?thesis
    by (simp add: preview_decisions dupIndependent_decisions xmpIndependent_decisions
        handleDuplicates_def dup_found handleXMPRenaming_walk skipped_walk)
qed

theorem independent_walks_decide_alike_witness:
  "dupIndependent mixed [''d''] \<and> xmpIndependent mixed [''d'']
   \<and> dupDecisions True [''d''] (start mixed) (WalkDir mixed [''d''])
       = dupDecisions False [''d''] (start mixed) (WalkDir mixed [''d''])
   \<and> xmpDecisions asciiFold True [''d''] (start mixed) (WalkDir mixed [''d''])
       = xmpDecisions asciiFold False [''d''] (start mixed) (WalkDir mixed [''d''])
   \<and> dupDecisions False [''d''] (start mixed) (WalkDir mixed [''d''])
       = [NoDecision, DuplicatePair [''d'', ''img.jpg''] 500, NoDecision, NoDecision, NoDecision]
   \<and> xmpDecisions asciiFold False [''d''] (start mixed) (WalkDir mixed [''d''])
       = [NotSidecar, NotSidecar, NotSidecar, AlreadyCorrect, Orphaned]"
proof -
  have h1: "dupIndependent mixed [''d'']"
    by (simp add: dupIndependent_def dupDeletable_def names mixed_def)
  have h2: "xmpIndependent mixed [''d'']"
    by (simp add: xmpIndependent_def xmpDeletable_def names mixed_def)
  have d: "map (dupDecide mixed) (WalkDir mixed [''d''])
       = [NoDecision, DuplicatePair [''d'', ''img.jpg''] 500, NoDecision, NoDecision, NoDecision]"
    by (simp add: dupDecide_def names mixed_def)
  have x: "map (xmpDecide asciiFold mixed) (WalkDir mixed [''d''])
       = [NotSidecar, NotSidecar, NotSidecar, AlreadyCorrect, Orphaned]"
    by (simp add: xmpDecide_simple names mixed_def)
  from independent_walks_decide_alike [of "[''d'']" mixed asciiFold] h1 h2 d x show ?thesis by simp
qed

text \<open>
  The specification says so of every directory. In \<open>chain\<close> the sidecar \<open>a.xmp.xmp\<close> has
  the sidecar \<open>a.xmp\<close> as its image. Without \<open>apply\<close> it is \<open>AlreadyCorrect\<close>; with
  \<open>apply\<close> the orphan \<open>a.xmp\<close> has been removed when \<open>a.xmp.xmp\<close> is visited, which is
  then an orphan too and removed. In \<open>nested\<close> the file \<open>x(1) ((2)3)\<close> is cleaned to
  \<open>x (3)\<close>, itself a duplicate of \<open>x\<close>: without \<open>apply\<close> two pairs are decided, with
  \<open>apply\<close> the file \<open>x (3)\<close> is gone when \<open>x(1) ((2)3)\<close> is visited and only one is.
\<close>

theorem removal_changes_later_decision:
  "xmpDecisions asciiFold False [''d''] (start chain) (WalkDir chain [''d''])
     = [NotSidecar, Orphaned, AlreadyCorrect]
   \<and> xmpDecisions asciiFold True [''d''] (start chain) (WalkDir chain [''d''])
     = [NotSidecar, Orphaned, Orphaned]
   \<and> foundChanges (handleXMPRenaming asciiFold [''d''] False chain) = 1
   \<and> foundChanges (handleXMPRenaming asciiFold [''d''] True chain) = 2
   \<and> disk (handleXMPRenaming asciiFold [''d''] True chain) = [([], folder), ([''d''], folder)]
   \<and> dupDecisions False [''d''] (start nested) (WalkDir nested [''d''])
     = [NoDecision, NoDecision, DuplicatePair [''d'', ''x''] 5, DuplicatePair [''d'', ''x (3)''] 5]
   \<and> dupDecisions True [''d''] (start nested) (WalkDir nested [''d''])
     = [NoDecision, NoDecision, DuplicatePair [''d'', ''x''] 5, NoDecision]
   \<and> foundChanges (handleDuplicates [''d''] False nested) = 2
   \<and> foundChanges (handleDuplicates [''d''] True nested) = 1"
  by (simp add: run_defs names chain_def nested_def)

text \<open>
  \<^bold>\<open>C7\<close> (amended). The code takes an image for numbered when its name contains
  \<open>(\<close>, and for clean when it does not. For a sidecar whose image \<open>exactImagePath\<close> does
  not exist and whose directory holds a candidate without \<open>(\<close> and a candidate with
  \<open>(\<close>, the decision is \<open>Ambiguous\<close> and the visit changes nothing, with or without
  \<open>apply\<close>; candidates are compared with the sidecar under \<open>EqualFold\<close>, whatever that
  relation is. When neither the cleaned stem nor the extension of the sidecar's image
  contains \<open>(\<close>, and folding keeps \<open>(\<close>, the name of a candidate contains \<open>(\<close> exactly
  when \<open>cleanFilename\<close> changes it: the first of the two candidates then has no marker
  and the second has one.
\<close>

theorem ambiguous_no_action:
  assumes "\<not> IsDir d" and "hasSuffix (Base p) ''.xmp''"
    and "Stat (disk st) (exactImagePath p) = None"
    and "e1 \<in> set (ReadDir (disk st) (Dir p))" and "candidate EqualFold p e1" and "\<not> containsParen (fst e1)"
    and "e2 \<in> set (ReadDir (disk st) (Dir p))" and "candidate EqualFold p e2" and "containsParen (fst e2)"
  shows "xmpDecide EqualFold (disk st) (p, d) = Ambiguous \<and> xmpVisit EqualFold apply dir st (p, d) = st
    \<and> (keepsParen EqualFold \<and> \<not> containsParen (cleanBaseOnly p) \<and> \<not> containsParen (imageExt p) \<longrightarrow>
         cleanFilename (fst e1) = fst e1 \<and> cleanFilename (fst e2) \<noteq> fst e2)"
proof -
  from assms(4-6) have "cleanImageExists EqualFold (disk st) p"
    unfolding cleanImageExists_def by (intro list_ex_member [of e1]) (simp_all add: cleanImage_def)
  moreover from assms(7-9) have "numberedImageExists EqualFold (disk st) p"
    unfolding numberedImageExists_def
    by (intro list_ex_member [of e2]) (simp_all add: numberedImage_def)
  ultimately have "xmpDecide EqualFold (disk st) (p, d) = Ambiguous"
    using assms(1-3) by (simp add: xmpDecide_simple)
  then have "xmpDecide EqualFold (disk st) (p, d) = Ambiguous \<and> xmpVisit EqualFold apply dir st (p, d) = st"
    by (simp add: xmpVisit_def xmpAct_idle)
  moreover have "cleanFilename (fst e1) = fst e1 \<and> cleanFilename (fst e2) \<noteq> fst e2"
    if "\<not> containsParen (cleanBaseOnly p)" and "\<not> containsParen (imageExt p)"
      and "keepsParen EqualFold"
    using candidate_marked [OF assms(5) that] candidate_marked [OF assms(8) that] assms(6,9)
    by simp
  ultimately show ?thesis by blast
qed

theorem ambiguous_no_action_witness:
  "\<not> IsDir (regular 3) \<and> hasSuffix (Base [''d'', ''a (3).mp4.xmp'']) ''.xmp''
   \<and> Stat (disk (start both)) (exactImagePath [''d'', ''a (3).mp4.xmp'']) = None
   \<and> (''a.mp4'', regular 9) \<in> set (ReadDir (disk (start both)) (Dir [''d'', ''a (3).mp4.xmp'']))
   \<and> candidate asciiFold [''d'', ''a (3).mp4.xmp''] (''a.mp4'', regular 9)
   \<and> \<not> containsParen (fst (''a.mp4'', regular 9))
   \<and> (''a (1).mp4'', regular 9) \<in> set (ReadDir (disk (start both)) (Dir [''d'', ''a (3).mp4.xmp'']))
   \<and> candidate asciiFold [''d'', ''a (3).mp4.xmp''] (''a (1).mp4'', regular 9)
   \<and> containsParen (fst (''a (1).mp4'', regular 9))
   \<and> \<not> containsParen (cleanBaseOnly [''d'', ''a (3).mp4.xmp''])
   \<and> \<not> containsParen (imageExt [''d'', ''a (3).mp4.xmp''])
   \<and> xmpDecide asciiFold (disk (start both)) ([''d'', ''a (3).mp4.xmp''], regular 3) = Ambiguous
   \<and> xmpVisit asciiFold True [''d''] (start both) ([''d'', ''a (3).mp4.xmp''], regular 3) = start both
   \<and> cleanFilename (fst (''a (1).mp4'', regular 9)) \<noteq> fst (''a (1).mp4'', regular 9)"
proof -
  have h1: "\<not> IsDir (regular 3)" by (simp add: regular_def)
  have h2: "hasSuffix (Base [''d'', ''a (3).mp4.xmp'']) ''.xmp''" by (simp add: names)
  have h3: "Stat (disk (start both)) (exactImagePath [''d'', ''a (3).mp4.xmp'']) = None"
    by (simp add: names both_def)
  have h4: "(''a.mp4'', regular 9) \<in> set (ReadDir (disk (start both)) (Dir [''d'', ''a (3).mp4.xmp'']))"
    by (simp add: names both_def)
  have h5: "candidate asciiFold [''d'', ''a (3).mp4.xmp''] (''a.mp4'', regular 9)" by (simp add: names)
  have h6: "\<not> containsParen (fst (''a.mp4'', regular 9))" by (simp add: names)
  have h7: "(''a (1).mp4'', regular 9) \<in> set (ReadDir (disk (start both)) (Dir [''d'', ''a (3).mp4.xmp'']))"
    by (simp add: names both_def)
  have h8: "candidate asciiFold [''d'', ''a (3).mp4.xmp''] (''a (1).mp4'', regular 9)" by (simp add: names)
  have h9: "containsParen (fst (''a (1).mp4'', regular 9))" by (simp add: names)
  have h10: "\<not> containsParen (cleanBaseOnly [''d'', ''a (3).mp4.xmp''])" by (simp add: names)
  have h11: "\<not> containsParen (imageExt [''d'', ''a (3).mp4.xmp''])" by (simp add: names)
  from ambiguous_no_action [OF h1 h2 h3 h4 h5 h6 h7 h8 h9, of True "[''d'']"]
    h1 h2 h3 h4 h5 h6 h7 h8 h9 h10 h11 keepsParen_asciiFold
  show ?thesis by blast
qed

text \<open>
  The specification speaks of a variant with a marker and one without. A name with
  a parenthesis that is no marker counts as numbered: in \<open>parens\<close> the candidates
  \<open>a(b).jpg\<close> (which \<open>cleanFilename\<close> leaves as it is) and \<open>a(b) (2).jpg\<close> (which it
  changes) are both numbered, the sidecar \<open>a(b) (1).jpg.xmp\<close> is decided \<open>Orphaned\<close>
  and, with \<open>apply\<close>, removed.
\<close>

theorem literal_parenthesis_not_ambiguous:
  "Stat parens (exactImagePath [''d'', ''a(b) (1).jpg.xmp'']) = None
   \<and> (''a(b).jpg'', regular 9) \<in> set (ReadDir parens [''d''])
   \<and> candidate asciiFold [''d'', ''a(b) (1).jpg.xmp''] (''a(b).jpg'', regular 9)
   \<and> cleanFilename ''a(b).jpg'' = ''a(b).jpg''
   \<and> (''a(b) (2).jpg'', regular 9) \<in> set (ReadDir parens [''d''])
   \<and> candidate asciiFold [''d'', ''a(b) (1).jpg.xmp''] (''a(b) (2).jpg'', regular 9)
   \<and> cleanFilename ''a(b) (2).jpg'' \<noteq> ''a(b) (2).jpg''
   \<and> xmpDecide asciiFold parens ([''d'', ''a(b) (1).jpg.xmp''], regular 3) = Orphaned
   \<and> calls (handleXMPRenaming asciiFold [''d''] True parens) = [CallRemove [''d'', ''a(b) (1).jpg.xmp'']]
   \<and> Stat (disk (handleXMPRenaming asciiFold [''d''] True parens)) [''d'', ''a(b) (1).jpg.xmp''] = None"
  by (simp add: run_defs names parens_def)

text \<open>
  \<^bold>\<open>C8\<close> (amended). When \<^verbatim>\<open>os.Stat\<close> succeeds on \<open>exactImagePath\<close>, the sidecar's name
  without the suffix \<open>.xmp\<close> in the sidecar's directory, at the moment the sidecar is
  visited, the decision is \<open>AlreadyCorrect\<close>, whatever else the directory holds, and the
  visit changes nothing. \<^verbatim>\<open>os.Stat\<close> succeeds there whenever the directory has an entry
  of that name (a name other than the empty one, \<open>.\<close> and \<open>..\<close>, as every name of an
  entry is). When it succeeds on the directory tree as it is before the run, and either
  the run is without \<open>apply\<close> or no sidecar that the walk visits is at \<open>exactImagePath\<close>,
  then every visit of the sidecar in the run decides \<open>AlreadyCorrect\<close>, the run does not
  call \<^verbatim>\<open>os.Remove\<close> on the sidecar and leaves it as it was. On \<open>bound\<close>, with
  \<open>a (2).mp4\<close> and \<open>a (2).mp4.xmp\<close>, a run with \<open>apply\<close> removes and renames nothing.
\<close>

theorem already_correct_first:
  assumes "\<not> IsDir d" and "hasSuffix (Base p) ''.xmp''"
  shows "(Stat (disk st) (exactImagePath p) \<noteq> None \<longrightarrow>
           xmpDecide EqualFold (disk st) (p, d) = AlreadyCorrect
           \<and> xmpVisit EqualFold apply dir st (p, d) = st)
    \<and> ((imageBase p, i) \<in> set (ReadDir fs (Dir p)) \<and> imageBase p \<notin> {[], ''.'', ''..''} \<longrightarrow>
         Stat fs (exactImagePath p) \<noteq> None)
    \<and> (Stat fs (exactImagePath p) \<noteq> None
        \<and> (apply \<longrightarrow> list_all (\<lambda>q. fst q \<noteq> exactImagePath p)
                         (filter xmpDeletable (WalkDir fs dir))) \<longrightarrow>
         (\<forall>x\<in>set (zip (WalkDir fs dir)
                     (xmpDecisions EqualFold apply dir (start fs) (WalkDir fs dir))).
            fst x = (p, d) \<longrightarrow> snd x = AlreadyCorrect)
         \<and> CallRemove p \<notin> set (calls (handleXMPRenaming EqualFold dir apply fs))
         \<and> Stat (disk (handleXMPRenaming EqualFold dir apply fs)) p = Stat fs p)
    \<and> handleXMPRenaming EqualFold [''d''] True bound
        = \<lparr>disk = bound, out = [Stdout ''No XMP files need renaming.''], calls = [],
           foundChanges = 0, skipped = 0, xmpFiles = []\<rparr>"
proof -
  have visit: "xmpDecide EqualFold (disk st) (p, d) = AlreadyCorrect
      \<and> xmpVisit EqualFold apply dir st (p, d) = st"
    if "Stat (disk st) (exactImagePath p) \<noteq> None"
  proof -
    from assms that have "xmpDecide EqualFold (disk st) (p, d) = AlreadyCorrect"
      by (simp add: xmpDecide_simple)
    then show ?thesis by (simp add: xmpVisit_def xmpAct_idle)
  qed
  have sibling: "Stat fs (exactImagePath p) \<noteq> None"
    if "(imageBase p, i) \<in> set (ReadDir fs (Dir p))" and "imageBase p \<notin> {[], ''.'', ''..''}"
    unfolding exactImagePath_def using that by (rule sibling_Stat)
  have run: "(\<forall>x\<in>set (zip (WalkDir fs dir)
                     (xmpDecisions EqualFold apply dir (start fs) (WalkDir fs dir))).
            fst x = (p, d) \<longrightarrow> snd x = AlreadyCorrect)
         \<and> CallRemove p \<notin> set (calls (handleXMPRenaming EqualFold dir apply fs))
         \<and> Stat (disk (handleXMPRenaming EqualFold dir apply fs)) p = Stat fs p"
    if img: "Stat fs (exactImagePath p) \<noteq> None"
      and free: "apply \<longrightarrow> list_all (\<lambda>q. fst q \<noteq> exactImagePath p)
                         (filter xmpDeletable (WalkDir fs dir))"
  proof -
    define D where "D = (if apply then fst ` {q \<in> set (WalkDir fs dir). xmpDeletable q} else {})"
    have 1: "disk (start fs) = filter (\<lambda>r. fst r \<notin> {}) fs" by (simp add: start_def)
    have 2: "{} \<subseteq> D" by simp
    have 3: "\<forall>r\<in>set (WalkDir fs dir). apply \<and> xmpDeletable r \<longrightarrow> fst r \<in> D"
      unfolding D_def by auto
    from free have 4: "exactImagePath p \<notin> D"
      unfolding D_def by (auto simp: list_all_iff)
    have 6: "p \<notin> {}" by simp
    have 7: "CallRemove p \<notin> set (calls (start fs))" by (simp add: start_def)
    from image_kept [OF 1 2 3 4 img 6 7, of EqualFold dir]
    have k: "(\<forall>x\<in>set (zip (WalkDir fs dir)
                     (xmpDecisions EqualFold apply dir (start fs) (WalkDir fs dir))).
            fst (fst x) = p \<and> xmpDeletable (fst x) \<longrightarrow> snd x = AlreadyCorrect)"
      and c: "CallRemove p \<notin> set (calls (xmpWalk EqualFold dir apply fs))"
      and s: "Stat (disk (xmpWalk EqualFold dir apply fs)) p = Stat fs p"
      by (simp_all add: xmpWalk_def)
    from assms have "xmpDeletable (p, d)" by (simp add: xmpDeletable_def)
    with k have "\<forall>x\<in>set (zip (WalkDir fs dir)
                     (xmpDecisions EqualFold apply dir (start fs) (WalkDir fs dir))).
            fst x = (p, d) \<longrightarrow> snd x = AlreadyCorrect"
      by auto
    with c s show ?thesis by (simp add: handleXMPRenaming_walk)
  qed
  have "handleXMPRenaming EqualFold [''d''] True bound
        = \<lparr>disk = bound, out = [Stdout ''No XMP files need renaming.''], calls = [],
           foundChanges = 0, skipped = 0, xmpFiles = []\<rparr>"
    by (simp add: run_defs names bound_def)
  with visit sibling run show ?thesis by blast
qed

theorem already_correct_first_witness:
  "\<not> IsDir (regular 3) \<and> hasSuffix (Base [''d'', ''a (2).mp4.xmp'']) ''.xmp''
   \<and> (imageBase [''d'', ''a (2).mp4.xmp''], regular 9)
        \<in> set (ReadDir bound (Dir [''d'', ''a (2).mp4.xmp'']))
   \<and> imageBase [''d'', ''a (2).mp4.xmp''] \<notin> {[], ''.'', ''..''}
   \<and> Stat (disk (start bound)) (exactImagePath [''d'', ''a (2).mp4.xmp'']) \<noteq> None
   \<and> Stat bound (exactImagePath [''d'', ''a (2).mp4.xmp'']) \<noteq> None
   \<and> list_all (\<lambda>q. fst q \<noteq> exactImagePath [''d'', ''a (2).mp4.xmp''])
        (filter xmpDeletable (WalkDir bound [''d'']))
   \<and> xmpDecide asciiFold (disk (start bound)) ([''d'', ''a (2).mp4.xmp''], regular 3) = AlreadyCorrect
   \<and> xmpVisit asciiFold True [''d''] (start bound) ([''d'', ''a (2).mp4.xmp''], regular 3) = start bound
   \<and> (([''d'', ''a (2).mp4.xmp''], regular 3), AlreadyCorrect)
        \<in> set (zip (WalkDir bound [''d''])
                   (xmpDecisions asciiFold True [''d''] (start bound) (WalkDir bound [''d''])))
   \<and> CallRemove [''d'', ''a (2).mp4.xmp'']
        \<notin> set (calls (handleXMPRenaming asciiFold [''d''] True bound))
   \<and> Stat (disk (handleXMPRenaming asciiFold [''d''] True bound)) [''d'', ''a (2).mp4.xmp'']
        = Some (regular 3)"
proof -
  have h1: "\<not> IsDir (regular 3)" by (simp add: regular_def)
  have h2: "hasSuffix (Base [''d'', ''a (2).mp4.xmp'']) ''.xmp''" by (simp add: names)
  have s1: "(imageBase [''d'', ''a (2).mp4.xmp''], regular 9)
        \<in> set (ReadDir bound (Dir [''d'', ''a (2).mp4.xmp'']))"
    by (simp add: names bound_def)
  have s2: "imageBase [''d'', ''a (2).mp4.xmp''] \<notin> {[], ''.'', ''..''}" by (simp add: names)
  have h3: "Stat (disk (start bound)) (exactImagePath [''d'', ''a (2).mp4.xmp'']) \<noteq> None"
    by (simp add: names bound_def)
  have h4: "Stat bound (exactImagePath [''d'', ''a (2).mp4.xmp'']) \<noteq> None"
    by (simp add: names bound_def)
  have h5: "list_all (\<lambda>q. fst q \<noteq> exactImagePath [''d'', ''a (2).mp4.xmp''])
        (filter xmpDeletable (WalkDir bound [''d'']))"
    by (simp add: names bound_def xmpDeletable_def)
  have m: "(([''d'', ''a (2).mp4.xmp''], regular 3), AlreadyCorrect)
        \<in> set (zip (WalkDir bound [''d''])
                   (xmpDecisions asciiFold True [''d''] (start bound) (WalkDir bound [''d''])))"
    by (simp add: run_defs names bound_def)
  have k: "Stat bound [''d'', ''a (2).mp4.xmp''] = Some (regular 3)"
    by (simp add: names bound_def)
  from already_correct_first [OF h1 h2, of "start bound" asciiFold True "[''d'']" "regular 9" bound]
    h1 h2 h3 h4 h5 s1 s2 m k
  show ?thesis by simp
qed

text \<open>
  The specification says so of every sidecar with a sibling of that name in the
  directory, before any other test. In a run with \<open>apply\<close> the sibling can be a sidecar
  that the same run has removed by the time of the visit. In \<open>chain\<close> the directory
  holds \<open>a.xmp\<close> and \<open>a.xmp.xmp\<close>: the sibling \<open>a.xmp\<close> of the sidecar \<open>a.xmp.xmp\<close> exists
  and on the directory as it is the decision is \<open>AlreadyCorrect\<close>; the run with \<open>apply\<close>
  visits \<open>a.xmp\<close> first, removes it as an orphan, then decides \<open>a.xmp.xmp\<close> an orphan
  and removes it.
\<close>

theorem sibling_removed_before_visit:
  "\<not> IsDir (regular 3) \<and> hasSuffix (Base [''d'', ''a.xmp.xmp'']) ''.xmp''
   \<and> (imageBase [''d'', ''a.xmp.xmp''], regular 3) \<in> set (ReadDir chain (Dir [''d'', ''a.xmp.xmp'']))
   \<and> Stat chain (exactImagePath [''d'', ''a.xmp.xmp'']) = Some (regular 3)
   \<and> xmpDecide asciiFold chain ([''d'', ''a.xmp.xmp''], regular 3) = AlreadyCorrect
   \<and> WalkDir chain [''d'']
       = [([''d''], folder), ([''d'', ''a.xmp''], regular 3), ([''d'', ''a.xmp.xmp''], regular 3)]
   \<and> Stat (disk (xmpVisit asciiFold True [''d''] (start chain) ([''d''], folder)))
        (exactImagePath [''d'', ''a.xmp.xmp'']) = Some (regular 3)
   \<and> Stat (disk (foldl (xmpVisit asciiFold True [''d'']) (start chain)
                    [([''d''], folder), ([''d'', ''a.xmp''], regular 3)]))
        (exactImagePath [''d'', ''a.xmp.xmp'']) = None
   \<and> xmpDecide asciiFold
        (disk (foldl (xmpVisit asciiFold True [''d'']) (start chain)
                 [([''d''], folder), ([''d'', ''a.xmp''], regular 3)]))
        ([''d'', ''a.xmp.xmp''], regular 3) = Orphaned
   \<and> calls (handleXMPRenaming asciiFold [''d''] True chain)
       = [CallRemove [''d'', ''a.xmp''], CallRemove [''d'', ''a.xmp.xmp'']]
   \<and> Stat (disk (handleXMPRenaming asciiFold [''d''] True chain)) [''d'', ''a.xmp.xmp''] = None"
  by (simp add: run_defs names chain_def)

text \<open>
  \<^bold>\<open>C9\<close>. For a sidecar on disk whose image \<open>exactImagePath\<close> does not exist and whose
  directory holds no candidate (no file other than a sidecar whose extension and
  cleaned stem are those of the sidecar's image under the relation \<open>EqualFold\<close>,
  whatever it is), no image is found and the decision is \<open>Orphaned\<close>: the visit counts
  it, prints the line \<^verbatim>\<open>[REMOVE] <relative path> (orphaned XMP, no base file exists)\<close>
  and, with \<open>apply\<close>, removes the sidecar and nothing else. On \<open>lone\<close> the sidecar \<open>b.png.xmp\<close> is removed.
\<close>

theorem orphaned_without_candidate:
  assumes "\<not> IsDir d" and "hasSuffix (Base p) ''.xmp''" and "Stat (disk st) p = Some d"
    and "Stat (disk st) (exactImagePath p) = None"
    and "\<not> list_ex (candidate EqualFold p) (ReadDir (disk st) (Dir p))"
  shows "findImage EqualFold (disk st) p = None
    \<and> xmpDecide EqualFold (disk st) (p, d) = Orphaned
    \<and> out (xmpVisit EqualFold apply dir st (p, d))
        = out st @ [Stdout (''[REMOVE] '' @ Rel dir p @ '' (orphaned XMP, no base file exists)'')]
    \<and> foundChanges (xmpVisit EqualFold apply dir st (p, d)) = foundChanges st + 1
    \<and> calls (xmpVisit EqualFold apply dir st (p, d)) = calls st @ (if apply then [CallRemove p] else [])
    \<and> disk (xmpVisit EqualFold apply dir st (p, d))
        = (if apply then filter (\<lambda>r. fst r \<noteq> p) (disk st) else disk st)
    \<and> Stat (disk (xmpVisit EqualFold True dir st (p, d))) p = None
    \<and> handleXMPRenaming EqualFold [''d''] True lone
        = \<lparr>disk = [([], folder), ([''d''], folder), ([''d'', ''a.jpg''], regular 9)],
           out = [Stdout ''[REMOVE] b.png.xmp (orphaned XMP, no base file exists)'', Stdout [],
                  Stdout ''Found 1 XMP file(s) to rename.'',
                  Stdout ''Renamed all XMP files to match their image files.''],
           calls = [CallRemove [''d'', ''b.png.xmp'']],
           foundChanges = 1, skipped = 0, xmpFiles = []\<rparr>"
proof -
  note nc = no_candidate [OF assms(5)]
  have dec: "xmpDecide EqualFold (disk st) (p, d) = Orphaned"
    using assms nc by (simp add: xmpDecide_simple)
  have rm: "Remove (disk st) p = Inr (filter (\<lambda>r. fst r \<noteq> p) (disk st))"
    using assms by (simp add: Remove_file)
  have gone: "Stat (filter (\<lambda>r. fst r \<noteq> p) (disk st)) p = None"
    using Stat_filter [of "{p}" "disk st" p] by simp
  have ex: "handleXMPRenaming EqualFold [''d''] True lone
        = \<lparr>disk = [([], folder), ([''d''], folder), ([''d'', ''a.jpg''], regular 9)],
           out = [Stdout ''[REMOVE] b.png.xmp (orphaned XMP, no base file exists)'', Stdout [],
                  Stdout ''Found 1 XMP file(s) to rename.'',
                  Stdout ''Renamed all XMP files to match their image files.''],
           calls = [CallRemove [''d'', ''b.png.xmp'']],
           foundChanges = 1, skipped = 0, xmpFiles = []\<rparr>"
    by (simp add: run_defs names lone_def showNat.simps)
  from dec rm gone nc(3) ex show ?thesis
    by (simp add: xmpVisit_def xmpAct_Orphaned orphanLine_def)
qed

theorem orphaned_without_candidate_witness:
  "\<not> IsDir (regular 3) \<and> hasSuffix (Base [''d'', ''b.png.xmp'']) ''.xmp''
   \<and> Stat (disk (start lone)) [''d'', ''b.png.xmp''] = Some (regular 3)
   \<and> Stat (disk (start lone)) (exactImagePath [''d'', ''b.png.xmp'']) = None
   \<and> \<not> list_ex (candidate asciiFold [''d'', ''b.png.xmp'']) (ReadDir (disk (start lone)) (Dir [''d'', ''b.png.xmp'']))
   \<and> xmpDecide asciiFold (disk (start lone)) ([''d'', ''b.png.xmp''], regular 3) = Orphaned
   \<and> out (xmpVisit asciiFold False [''d''] (start lone) ([''d'', ''b.png.xmp''], regular 3))
       = [Stdout ''[REMOVE] b.png.xmp (orphaned XMP, no base file exists)'']"
proof -
  have h1: "\<not> IsDir (regular 3)" by (simp add: regular_def)
  have h2: "hasSuffix (Base [''d'', ''b.png.xmp'']) ''.xmp''" by (simp add: names)
  have h3: "Stat (disk (start lone)) [''d'', ''b.png.xmp''] = Some (regular 3)"
    by (simp add: names lone_def)
  have h4: "Stat (disk (start lone)) (exactImagePath [''d'', ''b.png.xmp'']) = None"
    by (simp add: names lone_def)
  have h5: "\<not> list_ex (candidate asciiFold [''d'', ''b.png.xmp''])
              (ReadDir (disk (start lone)) (Dir [''d'', ''b.png.xmp'']))"
    by (simp add: names lone_def)
  from orphaned_without_candidate [OF h1 h2 h3 h4 h5, of False "[''d'']"]
  have "xmpDecide asciiFold (disk (start lone)) ([''d'', ''b.png.xmp''], regular 3) = Orphaned"
    and "out (xmpVisit asciiFold False [''d''] (start lone) ([''d'', ''b.png.xmp''], regular 3))
       = [Stdout ''[REMOVE] b.png.xmp (orphaned XMP, no base file exists)'']"
    by (simp_all add: Rel_def)
  with h1 h2 h3 h4 h5 show ?thesis by blast
qed

text \<open>
  \<^bold>\<open>C10\<close>. In every run of \<open>handleXMPRenaming\<close> each path named in a call of
  \<^verbatim>\<open>os.Remove\<close> or \<^verbatim>\<open>os.Rename\<close> (source and destination) has a name that ends in
  \<open>.xmp\<close>; in every run of \<open>handleDuplicates\<close> no such path has.
\<close>

theorem mutations_stay_in_class:
  "(\<forall>c\<in>set (calls (handleXMPRenaming EqualFold dir apply fs)).
       \<forall>q\<in>set (touched c). hasSuffix (Base q) ''.xmp'')
   \<and> (\<forall>c\<in>set (calls (handleDuplicates dir apply fs)).
       \<forall>q\<in>set (touched c). \<not> hasSuffix (Base q) ''.xmp'')"
proof (intro conjI ballI)
  fix c q
  assume "c \<in> set (calls (handleXMPRenaming EqualFold dir apply fs))" and "q \<in> set (touched c)"
  with xmpWalk_calls [of c EqualFold "apply" dir "start fs" "WalkDir fs dir"]
  show "hasSuffix (Base q) ''.xmp''"
    by (auto simp: handleXMPRenaming_walk xmpWalk_def)
next
  fix c q
  assume "c \<in> set (calls (handleDuplicates dir apply fs))" and "q \<in> set (touched c)"
  with dupWalk_calls [of c "apply" dir "start fs" "WalkDir fs dir"]
  show "\<not> hasSuffix (Base q) ''.xmp''"
    by (auto simp: handleDuplicates_def dupDeletable_def)
qed

theorem mutations_stay_in_class_witness:
  "calls (handleXMPRenaming asciiFold [''d''] True mixed) = [CallRemove [''d'', ''orphan.xmp'']]
   \<and> hasSuffix (Base [''d'', ''orphan.xmp'']) ''.xmp''
   \<and> calls (handleDuplicates [''d''] True mixed) = [CallRemove [''d'', ''img (1).jpg'']]
   \<and> \<not> hasSuffix (Base [''d'', ''img (1).jpg'']) ''.xmp''"
proof -
  have x: "calls (handleXMPRenaming asciiFold [''d''] True mixed) = [CallRemove [''d'', ''orphan.xmp'']]"
    by (simp add: run_defs names mixed_def)
  have y: "calls (handleDuplicates [''d''] True mixed) = [CallRemove [''d'', ''img (1).jpg'']]"
    by (simp add: run_defs names mixed_def)
  from mutations_stay_in_class [of asciiFold "[''d'']" True mixed] x y show ?thesis by simp
qed

end
